theory Spec2Isabelle
  imports Main "HOL-Library.Product_Lexorder"
begin

section \<open>Domain model (internal/domain/models.go)\<close>

text \<open>
  Instants of \<^verbatim>\<open>time.Time\<close> are points on the integer line; only equality and the
  difference of two instants are used by the code modelled here.
\<close>

type_synonym time = int

record Node =
  ID :: string
  FQDN :: string
  IP :: string
  DiscoveredBy :: string
  FirstSeen :: time
  LastSeen :: time
  IsActive :: bool

text \<open>\<^verbatim>\<open>NodeInfo\<close>: the payload of \<^verbatim>\<open>GET /nodeinfo\<close>; its fields carry the prefix
  \<open>Info\<close> because \<^verbatim>\<open>ID\<close>, \<^verbatim>\<open>FQDN\<close> and \<^verbatim>\<open>IP\<close> are fields of \<^verbatim>\<open>Node\<close> already.\<close>

record NodeInfo =
  InfoID :: string
  InfoFQDN :: string
  InfoIP :: string
  Nodes :: "Node list"

record SeedNode =
  SeedFQDN :: string
  SeedIP :: string

text \<open>\<^verbatim>\<open>PollResult\<close>; \<open>PollID\<close> is its field \<^verbatim>\<open>ID\<close>, which only the database sets.\<close>

record PollResult =
  PollID :: int
  NodeID :: string
  PollTime :: time
  Success :: bool
  ResponseMs :: int
  Error :: string
  PathMTU :: int

definition MaxDatabaseSizeMB :: int where
  "MaxDatabaseSizeMB = 10"

text \<open>Errors are values. Each constructor stands for one \<^verbatim>\<open>fmt.Errorf\<close> site.\<close>

datatype error =
    RepoFailure                \<comment> \<open>an error reported by the SQLite repository\<close>
  | NilNodeInfo                \<comment> \<open>"nodeInfo cannot be nil"\<close>
  | OwnNodeIDFailed error      \<comment> \<open>"failed to get own node ID: ..."\<close>
  | NodeNotFound string        \<comment> \<open>"node ... not found"\<close>
  | CheckExistingFailed error  \<comment> \<open>"failed to check existing node: ..."\<close>
  | CreateNodeFailed error     \<comment> \<open>"failed to create node: ..."\<close>
  | UpdateNodeFailed error     \<comment> \<open>"failed to update node: ..."\<close>
  | UpdateStatusFailed error   \<comment> \<open>"failed to update node status in database: ..."\<close>
  | SeedConfigFailed error     \<comment> \<open>"failed to load seed config: ..."\<close>
  | ConfigFailure              \<comment> \<open>an error reported by the configuration service\<close>
  | PathMTUFailed error        \<comment> \<open>"failed to discover path MTU: ..."\<close>
  | StatFailed                 \<comment> \<open>"failed to get database file info: ..."\<close>
  | CleanupFailed error        \<comment> \<open>"failed to cleanup old results: ..."\<close>
  | RowsAffectedFailed error   \<comment> \<open>"failed to get rows affected: ..."\<close>
  | VacuumFailed error         \<comment> \<open>"failed to vacuum database: ..."\<close>
  | CreatePollResultFailed error \<comment> \<open>"failed to create poll result: ..."\<close>
  | LoadNodesFailed error      \<comment> \<open>"failed to load existing nodes: ..."\<close>

section \<open>The node service and its repository (internal/app, internal/pkg/sqlite)\<close>

text \<open>
  \<^verbatim>\<open>NodeService.knownNodes\<close> is a \<^verbatim>\<open>map[string]*domain.Node\<close>: the cache holds
  pointers, and \<^verbatim>\<open>MergeNodeInfo\<close> writes through such a pointer before it calls
  \<^verbatim>\<open>addOrUpdateNode\<close> with it. The model therefore has an explicit store:
  \<open>heap\<close> maps an address to the \<^verbatim>\<open>Node\<close> object there, \<open>nxt\<close> is the next
  address that \<^verbatim>\<open>&domain.Node{...}\<close> allocates. \<open>nodeRepo\<close> is the table
  \<^verbatim>\<open>nodes\<close> with primary key \<^verbatim>\<open>id\<close>. \<open>faults\<close> schedules the outcomes of
  the repository calls still to come: each call takes the head of the list and fails when it
  is \<open>True\<close>; once the list is used up, calls no longer fail.
\<close>

record NodeService =
  heap :: "nat \<Rightarrow> Node"
  nxt :: nat
  knownNodes :: "string \<rightharpoonup> nat"
  nodeRepo :: "string \<rightharpoonup> Node"
  faults :: "bool list"

definition take_fault :: "NodeService \<Rightarrow> bool \<times> NodeService" where
  "take_fault ns = (case faults ns of [] \<Rightarrow> (False, ns) | f # fs \<Rightarrow> (f, ns\<lparr>faults := fs\<rparr>))"

text \<open>\<^verbatim>\<open>Repository.GetNode\<close>: \<^verbatim>\<open>sql.ErrNoRows\<close> is the result \<^verbatim>\<open>nil, nil\<close>.\<close>

definition GetNode :: "NodeService \<Rightarrow> string \<Rightarrow> NodeService \<times> (error + Node option)" where
  "GetNode ns i =
     (let (f, ns1) = take_fault ns
      in if f then (ns1, Inl RepoFailure) else (ns1, Inr (nodeRepo ns1 i)))"

text \<open>\<^verbatim>\<open>Repository.CreateNode\<close>: an \<^verbatim>\<open>INSERT\<close>, refused when the primary key exists.\<close>

definition CreateNode :: "NodeService \<Rightarrow> Node \<Rightarrow> NodeService \<times> error option" where
  "CreateNode ns node =
     (let (f, ns1) = take_fault ns
      in if f then (ns1, Some RepoFailure)
         else (case nodeRepo ns1 (ID node) of
                 Some _ \<Rightarrow> (ns1, Some RepoFailure)
               | None \<Rightarrow> (ns1\<lparr>nodeRepo := (nodeRepo ns1)(ID node \<mapsto> node)\<rparr>, None)))"

text \<open>\<^verbatim>\<open>Repository.UpdateNode\<close>: an \<^verbatim>\<open>UPDATE ... WHERE id = ?\<close>, which succeeds
  without effect when no row has that id.\<close>

definition UpdateNode :: "NodeService \<Rightarrow> Node \<Rightarrow> NodeService \<times> error option" where
  "UpdateNode ns node =
     (let (f, ns1) = take_fault ns
      in if f then (ns1, Some RepoFailure)
         else (case nodeRepo ns1 (ID node) of
                 None \<Rightarrow> (ns1, None)
               | Some _ \<Rightarrow> (ns1\<lparr>nodeRepo := (nodeRepo ns1)(ID node \<mapsto> node)\<rparr>, None)))"

text \<open>\<^verbatim>\<open>&domain.Node{...}\<close>: a new object at a new address.\<close>

definition new_node :: "NodeService \<Rightarrow> Node \<Rightarrow> NodeService \<times> nat" where
  "new_node ns node = (ns\<lparr>heap := (heap ns)(nxt ns := node), nxt := Suc (nxt ns)\<rparr>, nxt ns)"

text \<open>\<^verbatim>\<open>NodeService.addOrUpdateNode(ctx, node)\<close>, \<open>p\<close> being the pointer \<^verbatim>\<open>node\<close>.\<close>

definition addOrUpdateNode :: "NodeService \<Rightarrow> nat \<Rightarrow> NodeService \<times> error option" where
  "addOrUpdateNode ns p =
     (case GetNode ns (ID (heap ns p)) of
        (ns1, Inl e) \<Rightarrow> (ns1, Some (CheckExistingFailed e))
      | (ns1, Inr None) \<Rightarrow>
          (case CreateNode ns1 (heap ns1 p) of
             (ns2, Some e) \<Rightarrow> (ns2, Some (CreateNodeFailed e))
           | (ns2, None) \<Rightarrow>
               (ns2\<lparr>knownNodes := (knownNodes ns2)(ID (heap ns2 p) \<mapsto> p)\<rparr>, None))
      | (ns1, Inr (Some existingNode)) \<Rightarrow>
          (let ns2 = ns1\<lparr>heap := (heap ns1)(p := (heap ns1 p)\<lparr>FirstSeen := FirstSeen existingNode\<rparr>)\<rparr>
           in case UpdateNode ns2 (heap ns2 p) of
                (ns3, Some e) \<Rightarrow> (ns3, Some (UpdateNodeFailed e))
              | (ns3, None) \<Rightarrow>
                  (ns3\<lparr>knownNodes := (knownNodes ns3)(ID (heap ns3 p) \<mapsto> p)\<rparr>, None)))"

text \<open>The Registry as a reader sees it: the object behind each cached pointer.\<close>

definition registry :: "NodeService \<Rightarrow> string \<rightharpoonup> Node" where
  "registry ns i = map_option (heap ns) (knownNodes ns i)"

text \<open>An upsert of a node value, as every caller that builds a new \<^verbatim>\<open>Node\<close> does it:
  \<^verbatim>\<open>ns.addOrUpdateNode(ctx, &domain.Node{...})\<close>.\<close>

definition assign :: "NodeService \<Rightarrow> nat \<Rightarrow> (Node \<Rightarrow> Node) \<Rightarrow> NodeService" where
  \<comment> \<open>a write through the pointer \<open>p\<close>: \<^verbatim>\<open>p.Field = v\<close>\<close>
  "assign ns p f = ns\<lparr>heap := (heap ns)(p := f (heap ns p))\<rparr>"

definition upsert :: "NodeService \<Rightarrow> Node \<Rightarrow> NodeService \<times> error option" where
  "upsert ns node = (let (ns1, p) = new_node ns node in addOrUpdateNode ns1 p)"

subsection \<open>Configuration service (internal/pkg/config/service.go)\<close>

record ConfigService =
  nodeID :: string

text \<open>\<^verbatim>\<open>Service.GetNodeID\<close> returns the stored id and a nil error; its callers
  still test the error, and so do their models.\<close>

definition GetNodeID :: "ConfigService \<Rightarrow> error + string" where
  "GetNodeID s = Inr (nodeID s)"

subsection \<open>Merge (NodeService.MergeNodeInfo)\<close>

text \<open>The body of the loop over \<^verbatim>\<open>nodeInfo.Nodes\<close>. An error of
  \<^verbatim>\<open>addOrUpdateNode\<close> is logged and the loop goes on.\<close>

definition merge_node :: "string \<Rightarrow> string \<Rightarrow> time \<Rightarrow> NodeService \<Rightarrow> Node \<Rightarrow> NodeService" where
  "merge_node myNodeID infoID now ns node =
     (if ID node = myNodeID then ns
      else case knownNodes ns (ID node) of
        None \<Rightarrow>
          fst (upsert ns \<lparr>ID = ID node, FQDN = FQDN node, IP = IP node,
                 DiscoveredBy = infoID, FirstSeen = now, LastSeen = now, IsActive = True\<rparr>)
      | Some existingNode \<Rightarrow>
          (let ns1 = (if FQDN (heap ns existingNode) \<noteq> FQDN node
                      then assign ns existingNode (\<lambda>n. n\<lparr>FQDN := FQDN node\<rparr>) else ns);
               ns2 = (if IP (heap ns1 existingNode) \<noteq> IP node
                      then assign ns1 existingNode (\<lambda>n. n\<lparr>IP := IP node\<rparr>) else ns1);
               ns3 = assign ns2 existingNode (\<lambda>n. n\<lparr>LastSeen := now\<rparr>)
           in fst (addOrUpdateNode ns3 existingNode)))"

text \<open>\<open>now\<close> is the one reading of \<^verbatim>\<open>time.Now()\<close> that a merge makes.\<close>

definition MergeNodeInfo ::
  "ConfigService \<Rightarrow> NodeService \<Rightarrow> NodeInfo option \<Rightarrow> string \<Rightarrow> time \<Rightarrow> NodeService \<times> error option" where
  "MergeNodeInfo cfg ns nodeInfo discoveredBy now =
     (case nodeInfo of
        None \<Rightarrow> (ns, Some NilNodeInfo)
      | Some info \<Rightarrow>
          (case GetNodeID cfg of
             Inl e \<Rightarrow> (ns, Some (OwnNodeIDFailed e))
           | Inr myNodeID \<Rightarrow>
               (let ns1 = (if InfoID info \<noteq> myNodeID
                           then fst (upsert ns \<lparr>ID = InfoID info, FQDN = InfoFQDN info,
                                  IP = InfoIP info, DiscoveredBy = discoveredBy,
                                  FirstSeen = now, LastSeen = now, IsActive = True\<rparr>)
                           else ns)
                in (foldl (merge_node myNodeID (InfoID info) now) ns1 (Nodes info), None))))"

subsection \<open>Liveness flip (NodeService.UpdateNodeStatus)\<close>

definition UpdateNodeStatus :: "NodeService \<Rightarrow> string \<Rightarrow> bool \<Rightarrow> NodeService \<times> error option" where
  "UpdateNodeStatus ns i isActive =
     (case knownNodes ns i of
        None \<Rightarrow> (ns, Some (NodeNotFound i))
      | Some node \<Rightarrow>
          (let ns1 = assign ns node (\<lambda>n. n\<lparr>IsActive := isActive\<rparr>)
           in case UpdateNode ns1 (heap ns1 node) of
                (ns2, Some e) \<Rightarrow> (ns2, Some (UpdateStatusFailed e))
              | (ns2, None) \<Rightarrow> (ns2, None)))"

subsection \<open>Seed loading (NodeService.loadSeedNodes)\<close>

text \<open>The body of the loop over the seed entries; the id is
  \<^verbatim>\<open>fmt.Sprintf("seed-%s-%s", seedNode.FQDN, seedNode.IP)\<close>.\<close>

definition seed_node :: "string \<Rightarrow> time \<Rightarrow> NodeService \<Rightarrow> SeedNode \<Rightarrow> NodeService" where
  "seed_node myNodeID now ns seedNode =
     (let i = ''seed-'' @ SeedFQDN seedNode @ ''-'' @ SeedIP seedNode
      in if i = myNodeID then ns
         else case knownNodes ns i of
           Some _ \<Rightarrow> ns
         | None \<Rightarrow>
             fst (upsert ns \<lparr>ID = i, FQDN = SeedFQDN seedNode, IP = SeedIP seedNode,
                    DiscoveredBy = ''seed'', FirstSeen = now, LastSeen = now, IsActive = True\<rparr>))"

text \<open>\<open>seedConfig\<close> is what \<^verbatim>\<open>configSvc.LoadSeedConfig()\<close> returned: an error, a
  nil pointer or the entries of \<^verbatim>\<open>seed.json\<close>.\<close>

definition loadSeedNodes ::
  "ConfigService \<Rightarrow> NodeService \<Rightarrow> error + SeedNode list option \<Rightarrow> time \<Rightarrow> NodeService \<times> error option" where
  "loadSeedNodes cfg ns seedConfig now =
     (case seedConfig of
        Inl e \<Rightarrow> (ns, Some (SeedConfigFailed e))
      | Inr None \<Rightarrow> (ns, None)
      | Inr (Some seeds) \<Rightarrow>
          (if seeds = [] then (ns, None)
           else case GetNodeID cfg of
             Inl e \<Rightarrow> (ns, Some (OwnNodeIDFailed e))
           | Inr myNodeID \<Rightarrow> (foldl (seed_node myNodeID now) ns seeds, None)))"

subsection \<open>Start-up (NodeService.Initialize)\<close>

text \<open>\<^verbatim>\<open>Repository.GetAllNodes\<close>: the rows of the table, which the caller of the model
  supplies as \<open>rows\<close>; \<open>rows_of_table\<close> says that they are the rows.\<close>

definition rows_of_table :: "NodeService \<Rightarrow> Node list \<Rightarrow> bool" where
  "rows_of_table ns rows \<longleftrightarrow>
     distinct (map ID rows) \<and> nodeRepo ns = map_of (map (\<lambda>n. (ID n, n)) rows)"

definition GetAllNodes :: "NodeService \<Rightarrow> Node list \<Rightarrow> NodeService \<times> (error + Node list)" where
  "GetAllNodes ns rows =
     (let (f, ns1) = take_fault ns
      in if f then (ns1, Inl RepoFailure) else (ns1, Inr rows))"

text \<open>\<^verbatim>\<open>ns.knownNodes[nodes[i].ID] = &nodes[i]\<close>: each element of the slice is
  an object of its own.\<close>

definition cache_row :: "NodeService \<Rightarrow> Node \<Rightarrow> NodeService" where
  "cache_row ns node =
     (let (ns1, p) = new_node ns node in ns1\<lparr>knownNodes := (knownNodes ns1)(ID node \<mapsto> p)\<rparr>)"

text \<open>\<^verbatim>\<open>NodeService.Initialize\<close>; a failure of the seed load is logged.\<close>

definition Initialize ::
  "ConfigService \<Rightarrow> NodeService \<Rightarrow> Node list \<Rightarrow> error + SeedNode list option \<Rightarrow> time \<Rightarrow>
     NodeService \<times> error option" where
  "Initialize cfg ns rows seedConfig now =
     (case GetAllNodes ns rows of
        (ns1, Inl e) \<Rightarrow> (ns1, Some (LoadNodesFailed e))
      | (ns1, Inr nodes) \<Rightarrow>
          (fst (loadSeedNodes cfg (foldl cache_row ns1 nodes) seedConfig now), None))"

subsection \<open>Listing the active nodes (NodeService.GetActiveNodes)\<close>

text \<open>
  The function ranges over a Go map, and Go leaves the order of that iteration open: it
  need not be the same from one \<^verbatim>\<open>range\<close> to the next. \<open>keys\<close> is the order in
  which this one iteration meets the keys, \<open>iteration_order\<close> says that it is an order
  of the keys of the map. The nodes are copied (\<^verbatim>\<open>*node\<close>); the error is always nil.
\<close>

definition iteration_order :: "NodeService \<Rightarrow> string list \<Rightarrow> bool" where
  "iteration_order ns keys \<longleftrightarrow> distinct keys \<and> set keys = dom (knownNodes ns)"

definition GetActiveNodes :: "NodeService \<Rightarrow> string list \<Rightarrow> error + Node list" where
  "GetActiveNodes ns keys =
     Inr (filter IsActive (map (heap ns) (List.map_filter (knownNodes ns) keys)))"

subsection \<open>Sequences of Registry operations\<close>

datatype op =
    Merge "NodeInfo option" string time
  | LoadSeeds "error + SeedNode list option" time
  | Upsert Node
  | SetActive string bool

fun apply_op :: "ConfigService \<Rightarrow> NodeService \<Rightarrow> op \<Rightarrow> NodeService" where
  "apply_op cfg ns (Merge nodeInfo discoveredBy now) = fst (MergeNodeInfo cfg ns nodeInfo discoveredBy now)"
| "apply_op cfg ns (LoadSeeds seedConfig now) = fst (loadSeedNodes cfg ns seedConfig now)"
| "apply_op cfg ns (Upsert node) = fst (upsert ns node)"
| "apply_op cfg ns (SetActive i b) = fst (UpdateNodeStatus ns i b)"

definition run :: "ConfigService \<Rightarrow> NodeService \<Rightarrow> op list \<Rightarrow> NodeService" where
  "run cfg ns ops = foldl (apply_op cfg) ns ops"

fun is_upsert :: "op \<Rightarrow> bool" where
  "is_upsert (Upsert _) = True"
| "is_upsert _ = False"

subsection \<open>Invariants of the cache\<close>

text \<open>Every cached pointer is allocated and its object carries the key as its id.\<close>

definition wf_cache :: "NodeService \<Rightarrow> bool" where
  "wf_cache ns \<longleftrightarrow>
     (\<forall>k p. knownNodes ns k = Some p \<longrightarrow> p < nxt ns \<and> ID (heap ns p) = k)"

text \<open>Every cached node has a row, with the same \<^verbatim>\<open>first_seen\<close>.\<close>

definition consistent :: "NodeService \<Rightarrow> bool" where
  "consistent ns \<longleftrightarrow>
     wf_cache ns \<and>
     (\<forall>k p. knownNodes ns k = Some p \<longrightarrow>
        (\<exists>e. nodeRepo ns k = Some e \<and> FirstSeen e = FirstSeen (heap ns p)))"

section \<open>Path discovery (internal/pkg/http/client.go)\<close>

text \<open>
  \<^verbatim>\<open>Client.testMTUSize\<close> dials the host and writes \<^verbatim>\<open>mtu-40\<close> bytes: what it
  returns is the network's answer, so it is a parameter \<open>t\<close> of the model, and
  \<open>t k mtu\<close> is the answer to the \<open>k\<close>-th attempt of one discovery when that
  attempt carries the size \<open>mtu\<close>. The sizes are Go \<^verbatim>\<open>int\<close>s, far from overflow
  on every call that \<^verbatim>\<open>discoverPathMTU\<close> makes.
\<close>

definition mtuSizes :: "int list" where
  "mtuSizes = [1500, 1472, 1460, 1400, 1300, 1200, 1000, 800, 576]"

text \<open>The loop over \<^verbatim>\<open>mtuSizes\<close>; the second component counts the attempts made.\<close>

fun try_sizes :: "(nat \<Rightarrow> int \<Rightarrow> bool) \<Rightarrow> nat \<Rightarrow> int list \<Rightarrow> int option \<times> nat" where
  "try_sizes t k [] = (None, k)"
| "try_sizes t k (mtu # rest) =
     (if t k mtu then (Some mtu, Suc k) else try_sizes t (Suc k) rest)"

text \<open>Go's \<^verbatim>\<open>/ 2\<close> on \<^verbatim>\<open>int\<close> truncates towards zero.\<close>

definition half :: "int \<Rightarrow> int" where
  "half s = (if 0 \<le> s then s div 2 else - ((- s) div 2))"

function binarySearchMTU :: "(nat \<Rightarrow> int \<Rightarrow> bool) \<Rightarrow> nat \<Rightarrow> int \<Rightarrow> int \<Rightarrow> int \<times> error option" where
  "binarySearchMTU t k mn mx =
     (if mn \<ge> mx then (mn, None)
      else (let mid = half (mn + mx)
            in if t k mid then binarySearchMTU t (Suc k) (mid + 1) mx
               else binarySearchMTU t (Suc k) mn (mid - 1)))"
  by pat_completeness auto
termination
  by (relation "measure (\<lambda>(t, k, mn, mx). nat (mx - mn))") (auto simp: half_def)

declare binarySearchMTU.simps [simp del]

definition discoverPathMTU :: "(nat \<Rightarrow> int \<Rightarrow> bool) \<Rightarrow> int \<times> error option" where
  "discoverPathMTU t =
     (case try_sizes t 0 mtuSizes of
        (Some mtu, _) \<Rightarrow> (mtu, None)
      | (None, k) \<Rightarrow> binarySearchMTU t k 576 1500)"

text \<open>\<^verbatim>\<open>Client.TestPathMTU\<close>, after it has cut the host out of the URL.\<close>

definition TestPathMTU :: "(nat \<Rightarrow> int \<Rightarrow> bool) \<Rightarrow> int \<times> error option" where
  "TestPathMTU t =
     (case discoverPathMTU t of
        (mtu, Some e) \<Rightarrow> (0, Some (PathMTUFailed e))
      | (mtu, None) \<Rightarrow> (mtu, None))"

section \<open>Poll history (internal/pkg/sqlite/repository.go)\<close>

text \<open>
  The table \<^verbatim>\<open>poll_results\<close> is the list of its rows; \<open>file_size\<close> is what
  \<^verbatim>\<open>os.Stat\<close> reports for the database file; \<open>pfaults\<close> schedules the failures
  of the calls to come, as \<open>faults\<close> does for the node table. Two things are not
  the repository's own and are parameters, gathered in \<open>StorageEngine\<close>: how the size
  of the file answers to a statement (for the rows left and the size before, the size after
  an \<^verbatim>\<open>INSERT\<close>, after the \<^verbatim>\<open>DELETE\<close> of a batch and after \<^verbatim>\<open>VACUUM\<close>), and
  \<open>local_offset\<close>, the offset of the host's local time from UTC at an instant
  (\<^verbatim>\<open>time.Local\<close>), in the unit of the instants.
\<close>

record PollRepository =
  poll_results :: "PollResult list"
  file_size :: int
  pfaults :: "bool list"

record StorageEngine =
  after_insert :: "PollResult list \<Rightarrow> int \<Rightarrow> int"
  after_delete :: "PollResult list \<Rightarrow> int \<Rightarrow> int"
  after_vacuum :: "PollResult list \<Rightarrow> int \<Rightarrow> int"
  local_offset :: "time \<Rightarrow> int"

text \<open>
  The column \<^verbatim>\<open>poll_time\<close> does not hold the instant. \<^verbatim>\<open>CreatePollResult\<close> binds
  \<^verbatim>\<open>result.PollTime\<close>, a \<^verbatim>\<open>time.Time\<close> that \<^verbatim>\<open>time.Now()\<close> made in the local
  zone, and the driver stores a \<^verbatim>\<open>time.Time\<close> as the text of its layout
  \<^verbatim>\<open>2006-01-02 15:04:05.999999999-07:00\<close>: the local wall clock, then the offset.
  \<^verbatim>\<open>ORDER BY poll_time\<close> compares these texts. \<open>stored_poll_time\<close> is the key that
  orders as the text does: first the wall clock (the instant plus the offset; its digits
  have fixed width), then the suffix, where \<^verbatim>\<open>+\<close> sorts before \<^verbatim>\<open>-\<close> and the
  digits after the sign grow with the magnitude. Pairs are ordered lexicographically.
\<close>

definition stored_poll_time :: "StorageEngine \<Rightarrow> time \<Rightarrow> int \<times> int \<times> int" where
  "stored_poll_time eng t =
     (let off = local_offset eng t
      in (t + off, if 0 \<le> off then 0 else 1, \<bar>off\<bar>))"

definition take_pfault :: "PollRepository \<Rightarrow> bool \<times> PollRepository" where
  "take_pfault r = (case pfaults r of [] \<Rightarrow> (False, r) | f # fs \<Rightarrow> (f, r\<lparr>pfaults := fs\<rparr>))"

definition CreatePollResult ::
  "StorageEngine \<Rightarrow> PollRepository \<Rightarrow> PollResult \<Rightarrow> PollRepository \<times> error option" where
  "CreatePollResult eng r result =
     (let (f, r1) = take_pfault r
      in if f then (r1, Some (CreatePollResultFailed RepoFailure))
         else (let rows = poll_results r1 @ [result]
               in (r1\<lparr>poll_results := rows, file_size := after_insert eng rows (file_size r1)\<rparr>,
                   None)))"

definition GetDatabaseSize :: "PollRepository \<Rightarrow> PollRepository \<times> (error + int)" where
  "GetDatabaseSize r =
     (let (f, r1) = take_pfault r
      in if f then (r1, Inl StatFailed) else (r1, Inr (file_size r1)))"

text \<open>
  The statement of the loop,
  \<^verbatim>\<open>DELETE FROM poll_results WHERE id IN (SELECT id FROM poll_results ORDER BY poll_time ASC LIMIT 1000)\<close>:
  \<^verbatim>\<open>id\<close> is the primary key, so the rows deleted are the rows selected, the first 1000
  in the order of the stored \<^verbatim>\<open>poll_time\<close>. The result is the number of rows affected.
\<close>

definition delete_batch ::
  "StorageEngine \<Rightarrow> PollRepository \<Rightarrow> PollRepository \<times> (error + nat)" where
  "delete_batch eng r =
     (let (f, r1) = take_pfault r
      in if f then (r1, Inl RepoFailure)
         else (let sorted_rows = sort_key (\<lambda>row. stored_poll_time eng (PollTime row))
                                   (poll_results r1);
                   rows = drop 1000 sorted_rows
               in (r1\<lparr>poll_results := rows, file_size := after_delete eng rows (file_size r1)\<rparr>,
                   Inr (length (take 1000 sorted_rows)))))"

text \<open>\<^verbatim>\<open>result.RowsAffected()\<close>, whose error the code tests.\<close>

definition RowsAffected :: "PollRepository \<Rightarrow> nat \<Rightarrow> PollRepository \<times> (error + nat)" where
  "RowsAffected r n =
     (let (f, r1) = take_pfault r
      in if f then (r1, Inl RepoFailure) else (r1, Inr n))"

definition vacuum :: "StorageEngine \<Rightarrow> PollRepository \<Rightarrow> PollRepository \<times> error option" where
  "vacuum eng r =
     (let (f, r1) = take_pfault r
      in if f then (r1, Some RepoFailure)
         else (r1\<lparr>file_size := after_vacuum eng (poll_results r1) (file_size r1)\<rparr>, None))"

text \<open>The loop of \<^verbatim>\<open>CleanupOldResults\<close>; \<open>currentSize\<close> is the size last measured.\<close>

function cleanup_loop ::
  "StorageEngine \<Rightarrow> int \<Rightarrow> PollRepository \<Rightarrow> int \<Rightarrow> PollRepository \<times> error option" where
  "cleanup_loop eng maxSizeBytes r currentSize =
     (if currentSize > maxSizeBytes then
        (case delete_batch eng r of
           (r1, Inl e) \<Rightarrow> (r1, Some (CleanupFailed e))
         | (r1, Inr n) \<Rightarrow>
             (case RowsAffected r1 n of
                (r2, Inl e) \<Rightarrow> (r2, Some (RowsAffectedFailed e))
              | (r2, Inr rowsAffected) \<Rightarrow>
                  if rowsAffected = 0 then (r2, None)
                  else (case GetDatabaseSize r2 of
                          (r3, Inl e) \<Rightarrow> (r3, Some e)
                        | (r3, Inr sz) \<Rightarrow> cleanup_loop eng maxSizeBytes r3 sz)))
      else (r, None))"
  by pat_completeness auto
termination
  by (relation "measure (\<lambda>(eng, m, r, c). length (poll_results r))")
     (auto simp: delete_batch_def RowsAffected_def GetDatabaseSize_def take_pfault_def Let_def
           split: prod.splits if_splits list.splits)

text \<open>\<^verbatim>\<open>Repository.CleanupOldResults(ctx, maxSizeMB)\<close>.\<close>

definition CleanupOldResults ::
  "StorageEngine \<Rightarrow> PollRepository \<Rightarrow> int \<Rightarrow> PollRepository \<times> error option" where
  "CleanupOldResults eng r maxSizeMB =
     (case GetDatabaseSize r of
        (r1, Inl e) \<Rightarrow> (r1, Some e)
      | (r1, Inr currentSize) \<Rightarrow>
          (let maxSizeBytes = maxSizeMB * 1024 * 1024
           in if currentSize \<le> maxSizeBytes then (r1, None)
              else (case cleanup_loop eng maxSizeBytes r1 currentSize of
                      (r2, Some e) \<Rightarrow> (r2, Some e)
                    | (r2, None) \<Rightarrow>
                        (case vacuum eng r2 of
                           (r3, Some e) \<Rightarrow> (r3, Some (VacuumFailed e))
                         | (r3, None) \<Rightarrow> (r3, None)))))"

section \<open>The polling service (internal/app/polling_service.go)\<close>

text \<open>\<^verbatim>\<open>firstPolls\<close> is a \<^verbatim>\<open>map[string]bool\<close>: a key that is absent reads as false.\<close>

record PollingService =
  nodeIndex :: nat
  firstPolls :: "string \<rightharpoonup> bool"

text \<open>
  What the world outside answers during one tick: the order in which the range over
  \<^verbatim>\<open>knownNodes\<close> meets the keys, the answers to the path-discovery attempts and to
  \<^verbatim>\<open>GetNodeInfo\<close> at a URL (\<open>Inl\<close> carries \<^verbatim>\<open>err.Error()\<close>), and the readings
  of the clock in \<^verbatim>\<open>PollNode\<close> (start and end) and in \<^verbatim>\<open>MergeNodeInfo\<close>.
\<close>

record Transport =
  keyOrder :: "string list"
  testMTUSize :: "string \<Rightarrow> nat \<Rightarrow> int \<Rightarrow> bool"
  getNodeInfo :: "string \<Rightarrow> string + NodeInfo"
  startTime :: time
  endTime :: time
  mergeTime :: time

definition nodeURL :: "Node \<Rightarrow> string" where
  "nodeURL node =
     (if FQDN node = [] \<or> FQDN node = ''unknown''
      then ''https://'' @ IP node @ '':443''
      else ''https://'' @ FQDN node @ '':443'')"

definition PollNode ::
  "ConfigService \<Rightarrow> Transport \<Rightarrow> PollingService \<Rightarrow> NodeService \<Rightarrow> Node \<Rightarrow>
     (PollResult \<times> error option) \<times> PollingService \<times> NodeService" where
  "PollNode cfg env ps ns node =
     (let result = \<lparr>PollID = 0, NodeID = ID node, PollTime = startTime env, Success = False,
                     ResponseMs = 0, Error = [], PathMTU = 0\<rparr>;
          isFirstPoll = (case firstPolls ps (ID node) of Some b \<Rightarrow> \<not> b | None \<Rightarrow> True);
          ps1 = (if isFirstPoll then ps\<lparr>firstPolls := (firstPolls ps)(ID node \<mapsto> True)\<rparr> else ps);
          result1 = (if isFirstPoll
                     then (case TestPathMTU (testMTUSize env (nodeURL node)) of
                             (mtu, None) \<Rightarrow> result\<lparr>PathMTU := mtu\<rparr>
                           | (mtu, Some e) \<Rightarrow> result)
                     else result);
          responseMs = endTime env - startTime env;
          result2 = result1\<lparr>ResponseMs := responseMs\<rparr>
      in case getNodeInfo env (nodeURL node) of
           Inl e \<Rightarrow> ((result2\<lparr>Success := False, Error := e\<rparr>, None), ps1, ns)
         | Inr nodeInfo \<Rightarrow>
             ((result2\<lparr>Success := True\<rparr>, None), ps1,
              fst (MergeNodeInfo cfg ns (Some nodeInfo) (ID node) (mergeTime env))))"

text \<open>The cursor: the section of \<^verbatim>\<open>pollNextNode\<close> under \<^verbatim>\<open>ps.mu\<close>, for a list of
  \<open>n\<close> candidates. It returns the index to poll and the service with the cursor moved.\<close>

definition rotate :: "PollingService \<Rightarrow> nat \<Rightarrow> nat \<times> PollingService" where
  "rotate ps n =
     (let ps1 = (if nodeIndex ps \<ge> n then ps\<lparr>nodeIndex := 0\<rparr> else ps);
          nodeToPolI = nodeIndex ps1;
          ps2 = ps1\<lparr>nodeIndex := nodeIndex ps1 + 1\<rparr>
      in (nodeToPolI, ps2))"

text \<open>The indices that \<open>m\<close> ticks in a row take from lists of the same length \<open>n\<close>.\<close>

fun rotations :: "PollingService \<Rightarrow> nat \<Rightarrow> nat \<Rightarrow> nat list" where
  "rotations ps n 0 = []"
| "rotations ps n (Suc m) = (case rotate ps n of (i, ps') \<Rightarrow> i # rotations ps' n m)"

text \<open>\<^verbatim>\<open>PollingService.pollNextNode\<close>: one tick of the scheduler.\<close>

definition pollNextNode ::
  "ConfigService \<Rightarrow> StorageEngine \<Rightarrow> Transport \<Rightarrow>
     PollingService \<times> NodeService \<times> PollRepository \<Rightarrow>
     (PollingService \<times> NodeService \<times> PollRepository) \<times> error option" where
  "pollNextNode cfg eng env st =
     (case st of (ps, ns, repo) \<Rightarrow>
      (case GetActiveNodes ns (keyOrder env) of
         Inl e \<Rightarrow> (st, Some e)
       | Inr nodes \<Rightarrow>
           if length nodes = 0 then (st, None)
           else (case GetNodeID cfg of
              Inl e \<Rightarrow> (st, Some (OwnNodeIDFailed e))
            | Inr myNodeID \<Rightarrow>
                (let filteredNodes = filter (\<lambda>node. ID node \<noteq> myNodeID) nodes
                 in if length filteredNodes = 0 then (st, None)
                    else (let (nodeToPolI, ps2) = rotate ps (length filteredNodes);
                              nodeToPoll = filteredNodes ! nodeToPolI
                          in case PollNode cfg env ps2 ns nodeToPoll of
                               ((result, Some e), ps3, ns1) \<Rightarrow> ((ps3, ns1, repo), None)
                             | ((result, None), ps3, ns1) \<Rightarrow>
                                 (let repo1 = fst (CreatePollResult eng repo result);
                                      ns2 = fst (UpdateNodeStatus ns1 (ID nodeToPoll) (Success result))
                                  in ((ps3, ns2, repo1), None)))))))"

text \<open>A run of ticks, each with the answers of the world during it.\<close>

definition ticks ::
  "ConfigService \<Rightarrow> StorageEngine \<Rightarrow> PollingService \<times> NodeService \<times> PollRepository \<Rightarrow>
     Transport list \<Rightarrow> PollingService \<times> NodeService \<times> PollRepository" where
  "ticks cfg eng st envs = foldl (\<lambda>s env. fst (pollNextNode cfg eng env s)) st envs"

section \<open>Notions used in the proofs\<close>

text \<open>Every node of the first Registry is in the second, with the same \<^verbatim>\<open>FirstSeen\<close>.\<close>

definition keeps_first_seen :: "NodeService \<Rightarrow> NodeService \<Rightarrow> bool" where
  "keeps_first_seen ns ns' \<longleftrightarrow>
     (\<forall>k n. registry ns k = Some n \<longrightarrow>
        (\<exists>n'. registry ns' k = Some n' \<and> FirstSeen n' = FirstSeen n))"

text \<open>A well-formed cache without an entry under the id \<open>my\<close>.\<close>

definition self_excluded :: "string \<Rightarrow> NodeService \<Rightarrow> bool" where
  "self_excluded my ns \<longleftrightarrow> wf_cache ns \<and> knownNodes ns my = None"


text \<open>A repository that answers every call still to come.\<close>

definition no_faults :: "NodeService \<Rightarrow> bool" where
  "no_faults ns \<longleftrightarrow> True \<notin> set (faults ns)"

text \<open>What the service holds under one key: the cached node and the row.\<close>

definition slot_of :: "NodeService \<Rightarrow> string \<Rightarrow> Node option \<times> Node option" where
  "slot_of ns k = (registry ns k, nodeRepo ns k)"

text \<open>A successful upsert of the node value \<open>n\<close>, seen at the key of \<open>n\<close>.\<close>

definition put :: "Node \<Rightarrow> Node option \<times> Node option \<Rightarrow> Node option \<times> Node option" where
  "put n v =
     (let n' = n\<lparr>FirstSeen := (case snd v of None \<Rightarrow> FirstSeen n | Some e \<Rightarrow> FirstSeen e)\<rparr>
      in (Some n', Some n'))"

text \<open>One round of the loop of a merge, seen at the key of \<open>node\<close>.\<close>

definition slot_step ::
  "string \<Rightarrow> time \<Rightarrow> Node option \<times> Node option \<Rightarrow> Node \<Rightarrow> Node option \<times> Node option" where
  "slot_step infoID now v node =
     (case fst v of
        None \<Rightarrow> put \<lparr>ID = ID node, FQDN = FQDN node, IP = IP node, DiscoveredBy = infoID,
                     FirstSeen = now, LastSeen = now, IsActive = True\<rparr> v
      | Some e \<Rightarrow> put (e\<lparr>FQDN := FQDN node, IP := IP node, LastSeen := now\<rparr>) v)"

text \<open>A slot of a consistent service: the cached node carries the key and has a row
  with its \<^verbatim>\<open>FirstSeen\<close>.\<close>

definition slot_ok :: "string \<Rightarrow> Node option \<times> Node option \<Rightarrow> bool" where
  "slot_ok k v \<longleftrightarrow>
     (\<forall>e. fst v = Some e \<longrightarrow> ID e = k \<and> (\<exists>d. snd v = Some d \<and> FirstSeen d = FirstSeen e))"

text \<open>A whole merge, seen at the key \<open>k\<close>: the upsert of the reporting node when
  \<open>k\<close> is its id, then the rounds of the loop for the nodes with the id \<open>k\<close>.\<close>

definition slot_merge ::
  "string \<Rightarrow> NodeInfo \<Rightarrow> string \<Rightarrow> time \<Rightarrow> string \<Rightarrow>
     Node option \<times> Node option \<Rightarrow> Node option \<times> Node option" where
  "slot_merge my info discoveredBy now k v =
     foldl (slot_step (InfoID info) now)
       (if k = InfoID info \<and> InfoID info \<noteq> my
        then put \<lparr>ID = InfoID info, FQDN = InfoFQDN info, IP = InfoIP info,
                   DiscoveredBy = discoveredBy, FirstSeen = now, LastSeen = now,
                   IsActive = True\<rparr> v
        else v)
       (filter (\<lambda>n. ID n = k \<and> ID n \<noteq> my) (Nodes info))"

text \<open>The keys that a merge of \<open>info\<close> addresses.\<close>

definition touched :: "ConfigService \<Rightarrow> NodeInfo \<Rightarrow> string set" where
  "touched cfg info = {k. k \<noteq> nodeID cfg \<and> (k = InfoID info \<or> k \<in> ID ` set (Nodes info))}"

text \<open>The same entry, last seen at \<open>t\<close>.\<close>

definition stamp :: "time \<Rightarrow> Node option \<Rightarrow> Node option" where
  "stamp t = map_option (\<lambda>n. n\<lparr>LastSeen := t\<rparr>)"

text \<open>The rows in the order of \<^verbatim>\<open>ORDER BY poll_time ASC\<close>.\<close>

definition stored_order :: "StorageEngine \<Rightarrow> PollResult list \<Rightarrow> PollResult list" where
  "stored_order eng rows = sort_key (\<lambda>row. stored_poll_time eng (PollTime row)) rows"

text \<open>The retention policy in the words of the specification, to compare the loop with:
  delete a batch of 1000 rows and measure again, \<open>j\<close> times. The pair is the table and
  the size of the file.\<close>

fun spec_batches :: "StorageEngine \<Rightarrow> nat \<Rightarrow> PollResult list \<times> int \<Rightarrow> PollResult list \<times> int" where
  "spec_batches eng 0 v = v"
| "spec_batches eng (Suc j) (rows, sz) =
     spec_batches eng j (drop 1000 (stored_order eng rows),
                         after_delete eng (drop 1000 (stored_order eng rows)) sz)"

section \<open>Example states\<close>

definition cfg_me :: ConfigService where
  "cfg_me = \<lparr>nodeID = ''me''\<rparr>"

definition node_q :: Node where
  "node_q = \<lparr>ID = ''q'', FQDN = ''q.example.com'', IP = ''10.0.0.2'', DiscoveredBy = ''p'',
              FirstSeen = 1, LastSeen = 1, IsActive = True\<rparr>"


definition ns_q :: NodeService where
  "ns_q = \<lparr>heap = (\<lambda>p. node_q), nxt = 1, knownNodes = [''q'' \<mapsto> 0],
            nodeRepo = [''q'' \<mapsto> node_q], faults = []\<rparr>"

definition info_q :: NodeInfo where
  "info_q = \<lparr>InfoID = ''q'', InfoFQDN = ''q.example.com'', InfoIP = ''10.0.0.2'', Nodes = []\<rparr>"

definition ops_q :: "op list" where
  "ops_q = [Merge (Some info_q) ''q'' 5, Upsert (node_q\<lparr>FirstSeen := 7, LastSeen := 7\<rparr>),
            LoadSeeds (Inr (Some [\<lparr>SeedFQDN = ''a.example.com'', SeedIP = ''10.0.0.1''\<rparr>])) 8,
            SetActive ''q'' False]"

definition eng_keep :: StorageEngine where
  "eng_keep = \<lparr>after_insert = (\<lambda>rows sz. max sz (4096 + 100 * int (length rows))),
                after_delete = (\<lambda>rows sz. sz),
                after_vacuum = (\<lambda>rows sz. min sz (4096 + 100 * int (length rows))),
                local_offset = (\<lambda>t. 0)\<rparr>"





definition node_a :: Node where
  "node_a = \<lparr>ID = ''a'', FQDN = ''a.example.com'', IP = ''10.0.0.1'', DiscoveredBy = ''seed'',
              FirstSeen = 1, LastSeen = 1, IsActive = True\<rparr>"

definition node_b :: Node where
  "node_b = \<lparr>ID = ''b'', FQDN = ''b.example.com'', IP = ''10.0.0.2'', DiscoveredBy = ''seed'',
              FirstSeen = 2, LastSeen = 2, IsActive = True\<rparr>"

definition ns_ab :: NodeService where
  "ns_ab = \<lparr>heap = (\<lambda>p. if p = 0 then node_a else node_b), nxt = 2,
             knownNodes = [''a'' \<mapsto> 0, ''b'' \<mapsto> 1],
             nodeRepo = [''a'' \<mapsto> node_a, ''b'' \<mapsto> node_b], faults = []\<rparr>"

definition ps_start :: PollingService where
  "ps_start = \<lparr>nodeIndex = 0, firstPolls = Map.empty\<rparr>"

definition repo_empty :: PollRepository where
  "repo_empty = \<lparr>poll_results = [], file_size = 4096, pfaults = []\<rparr>"

definition reply_self :: "string \<Rightarrow> string + NodeInfo" where
  "reply_self url =
     (if url = ''https://a.example.com:443''
      then Inr \<lparr>InfoID = ''a'', InfoFQDN = ''a.example.com'', InfoIP = ''10.0.0.1'', Nodes = []\<rparr>
      else Inr \<lparr>InfoID = ''b'', InfoFQDN = ''b.example.com'', InfoIP = ''10.0.0.2'', Nodes = []\<rparr>)"

definition env_ab :: Transport where
  "env_ab = \<lparr>keyOrder = [''a'', ''b''], testMTUSize = (\<lambda>url k mtu. True),
              getNodeInfo = reply_self, startTime = 100, endTime = 103, mergeTime = 103\<rparr>"

definition env_ba :: Transport where
  "env_ba = \<lparr>keyOrder = [''b'', ''a''], testMTUSize = (\<lambda>url k mtu. True),
              getNodeInfo = reply_self, startTime = 130, endTime = 133, mergeTime = 133\<rparr>"

definition info_qr :: NodeInfo where
  "info_qr = \<lparr>InfoID = ''q'', InfoFQDN = ''q.example.com'', InfoIP = ''10.0.0.2'',
               Nodes = [\<lparr>ID = ''r'', FQDN = ''r.example.com'', IP = ''10.0.0.3'', DiscoveredBy = ''x'',
                          FirstSeen = 0, LastSeen = 0, IsActive = False\<rparr>,
                        \<lparr>ID = ''me'', FQDN = ''me.example.com'', IP = ''10.0.0.9'', DiscoveredBy = ''q'',
                          FirstSeen = 0, LastSeen = 0, IsActive = True\<rparr>]\<rparr>"

section \<open>Properties of the node service\<close>

lemma take_fault_frame:
  "take_fault ns = (f, ns1) \<Longrightarrow>
     heap ns1 = heap ns \<and> nxt ns1 = nxt ns \<and> knownNodes ns1 = knownNodes ns \<and> nodeRepo ns1 = nodeRepo ns"
  by (auto simp: take_fault_def split: list.splits)

lemma GetNode_frame:
  "GetNode ns i = (ns1, r) \<Longrightarrow>
     heap ns1 = heap ns \<and> nxt ns1 = nxt ns \<and> knownNodes ns1 = knownNodes ns \<and> nodeRepo ns1 = nodeRepo ns \<and>
     (\<forall>x. r = Inr x \<longrightarrow> nodeRepo ns i = x)"
  by (auto simp: GetNode_def split: prod.splits if_splits dest: take_fault_frame)

lemma CreateNode_frame:
  "CreateNode ns node = (ns1, r) \<Longrightarrow>
     heap ns1 = heap ns \<and> nxt ns1 = nxt ns \<and> knownNodes ns1 = knownNodes ns \<and>
     nodeRepo ns1 = (if r = None then (nodeRepo ns)(ID node \<mapsto> node) else nodeRepo ns)"
  by (auto simp: CreateNode_def split: prod.splits if_splits option.splits dest: take_fault_frame)

lemma UpdateNode_frame:
  "UpdateNode ns node = (ns1, r) \<Longrightarrow>
     heap ns1 = heap ns \<and> nxt ns1 = nxt ns \<and> knownNodes ns1 = knownNodes ns \<and>
     nodeRepo ns1 = (if r = None \<and> nodeRepo ns (ID node) \<noteq> None
                     then (nodeRepo ns)(ID node \<mapsto> node) else nodeRepo ns)"
  by (auto simp: UpdateNode_def split: prod.splits if_splits option.splits dest: take_fault_frame)

text \<open>What one call of addOrUpdateNode does.\<close>

lemma addOrUpdateNode_effect:
  assumes "addOrUpdateNode ns p = (ns', r)"
  shows "nxt ns' = nxt ns"
    and "heap ns' = (heap ns)(p := (heap ns p)\<lparr>FirstSeen := FirstSeen (heap ns' p)\<rparr>)"
    and "FirstSeen (heap ns' p) = FirstSeen (heap ns p) \<or>
         map_option FirstSeen (nodeRepo ns (ID (heap ns p))) = Some (FirstSeen (heap ns' p))"
    and "r \<noteq> None \<Longrightarrow> knownNodes ns' = knownNodes ns \<and> nodeRepo ns' = nodeRepo ns"
    and "r = None \<Longrightarrow> knownNodes ns' = (knownNodes ns)(ID (heap ns p) \<mapsto> p) \<and>
           nodeRepo ns' = (nodeRepo ns)(ID (heap ns p) \<mapsto> heap ns' p) \<and>
           FirstSeen (heap ns' p) = (case nodeRepo ns (ID (heap ns p)) of
                                       None \<Rightarrow> FirstSeen (heap ns p) | Some e \<Rightarrow> FirstSeen e)"
  using assms
  by (auto simp: addOrUpdateNode_def Let_def
           split: prod.splits sum.splits option.splits
           dest!: GetNode_frame CreateNode_frame UpdateNode_frame)

lemma keeps_first_seen_refl: "keeps_first_seen ns ns"
  by (simp add: keeps_first_seen_def)

lemma keeps_first_seen_trans:
  "keeps_first_seen a b \<Longrightarrow> keeps_first_seen b c \<Longrightarrow> keeps_first_seen a c"
  unfolding keeps_first_seen_def by metis

lemma wf_cacheD: "wf_cache ns \<Longrightarrow> knownNodes ns k = Some p \<Longrightarrow> p < nxt ns \<and> ID (heap ns p) = k"
  by (simp add: wf_cache_def)

lemma addOrUpdateNode_wf:
  assumes "wf_cache ns" "p < nxt ns"
  shows "wf_cache (fst (addOrUpdateNode ns p))"
proof -
  obtain ns' r where eq: "addOrUpdateNode ns p = (ns', r)" by (cases "addOrUpdateNode ns p")
  note e = addOrUpdateNode_effect[OF eq]
  have ids: "ID (heap ns' q) = ID (heap ns q)" for q
    by (subst e(2)) simp
  show ?thesis
  proof (cases r)
    case None
    with e(5) have k: "knownNodes ns' = (knownNodes ns)(ID (heap ns p) \<mapsto> p)" by simp
    show ?thesis using assms by (auto simp: eq wf_cache_def k ids e(1) split: if_splits)
  next
    case (Some a)
    with e(4) have k: "knownNodes ns' = knownNodes ns" by simp
    show ?thesis using assms by (auto simp: eq wf_cache_def k ids e(1))
  qed
qed

lemma addOrUpdateNode_consistent:
  assumes "consistent ns" "p < nxt ns"
  shows "consistent (fst (addOrUpdateNode ns p)) \<and> keeps_first_seen ns (fst (addOrUpdateNode ns p))"
proof -
  obtain ns' r where eq: "addOrUpdateNode ns p = (ns', r)" by (cases "addOrUpdateNode ns p")
  note e = addOrUpdateNode_effect[OF eq]
  have wf: "wf_cache ns" using assms by (simp add: consistent_def)
  have wf': "wf_cache ns'" using addOrUpdateNode_wf[OF wf assms(2)] by (simp add: eq)
  have rows: "knownNodes ns k = Some q \<Longrightarrow> \<exists>e. nodeRepo ns k = Some e \<and> FirstSeen e = FirstSeen (heap ns q)" for k q
    using assms(1) by (simp add: consistent_def)
  have other: "q \<noteq> p \<Longrightarrow> heap ns' q = heap ns q" for q
    by (subst e(2)) simp
  text \<open>the first-seen time of the object at p, if p is cached, is the row's and stays\<close>
  have cached_p: "FirstSeen (heap ns' p) = FirstSeen (heap ns p)" if "knownNodes ns k = Some p" for k
  proof -
    from wf_cacheD[OF wf that] have "ID (heap ns p) = k" by simp
    with rows[OF that] e(3) show ?thesis by auto
  qed
  have fs: "knownNodes ns k = Some q \<Longrightarrow> FirstSeen (heap ns' q) = FirstSeen (heap ns q)" for k q
    using other cached_p by (cases "q = p") auto
  show ?thesis
  proof (cases r)
    case (Some a)
    with e(4) have k: "knownNodes ns' = knownNodes ns" and d: "nodeRepo ns' = nodeRepo ns" by simp_all
    have "consistent ns'"
      unfolding consistent_def using wf' rows fs by (auto simp: k d)
    moreover have "keeps_first_seen ns ns'"
      unfolding keeps_first_seen_def registry_def using fs by (auto simp: k)
    ultimately show ?thesis by (simp add: eq)
  next
    case None
    with e(5) have k: "knownNodes ns' = (knownNodes ns)(ID (heap ns p) \<mapsto> p)"
      and d: "nodeRepo ns' = (nodeRepo ns)(ID (heap ns p) \<mapsto> heap ns' p)"
      and f: "FirstSeen (heap ns' p) = (case nodeRepo ns (ID (heap ns p)) of
                                       None \<Rightarrow> FirstSeen (heap ns p) | Some e \<Rightarrow> FirstSeen e)"
      by simp_all
    have new_eq: "FirstSeen (heap ns' p) = FirstSeen (heap ns q)" if "knownNodes ns (ID (heap ns p)) = Some q" for q
      using rows[OF that] f by auto
    have "consistent ns'"
      unfolding consistent_def using wf' rows fs new_eq by (auto simp: k d)
    moreover have "keeps_first_seen ns ns'"
      unfolding keeps_first_seen_def registry_def using fs new_eq by (auto simp: k)
    ultimately show ?thesis by (simp add: eq)
  qed
qed

lemma new_node_consistent:
  assumes "consistent ns" "new_node ns n = (ns1, p)"
  shows "consistent ns1 \<and> keeps_first_seen ns ns1 \<and> p < nxt ns1"
proof -
  have eqs: "p = nxt ns" "nxt ns1 = Suc (nxt ns)" "heap ns1 = (heap ns)(nxt ns := n)"
    "knownNodes ns1 = knownNodes ns" "nodeRepo ns1 = nodeRepo ns"
    using assms(2) by (auto simp: new_node_def)
  have lt: "knownNodes ns k = Some q \<Longrightarrow> q < nxt ns" for k q
    using assms(1) by (auto simp: consistent_def wf_cache_def)
  have same: "knownNodes ns k = Some q \<Longrightarrow> heap ns1 q = heap ns q" for k q
    using lt[of k q] by (simp add: eqs)
  have "consistent ns1"
    using assms(1) unfolding consistent_def wf_cache_def
    by (auto simp: eqs(2,4,5) same dest: lt)
  moreover have "keeps_first_seen ns ns1"
    unfolding keeps_first_seen_def registry_def by (auto simp: eqs(4) same)
  ultimately show ?thesis by (simp add: eqs)
qed

lemma keeps_first_seenI:
  assumes "\<And>k q. knownNodes ns k = Some q \<Longrightarrow>
             \<exists>q'. knownNodes ns' k = Some q' \<and> FirstSeen (heap ns' q') = FirstSeen (heap ns q)"
  shows "keeps_first_seen ns ns'"
  unfolding keeps_first_seen_def registry_def using assms by fastforce

lemma assign_consistent:
  assumes "consistent ns" "ID (f (heap ns p)) = ID (heap ns p)"
    "FirstSeen (f (heap ns p)) = FirstSeen (heap ns p)"
  shows "consistent (assign ns p f) \<and> keeps_first_seen ns (assign ns p f)"
proof
  show "consistent (assign ns p f)"
    using assms unfolding consistent_def wf_cache_def assign_def by auto
  show "keeps_first_seen ns (assign ns p f)"
    using assms(3) by (intro keeps_first_seenI) (auto simp: assign_def)
qed

lemma assign_frame [simp]:
  "nxt (assign ns p f) = nxt ns" "knownNodes (assign ns p f) = knownNodes ns"
  "nodeRepo (assign ns p f) = nodeRepo ns" "heap (assign ns p f) p = f (heap ns p)"
  by (simp_all add: assign_def)

lemma upsert_consistent:
  assumes "consistent ns"
  shows "consistent (fst (upsert ns n)) \<and> keeps_first_seen ns (fst (upsert ns n))"
proof -
  obtain ns1 p where nn: "new_node ns n = (ns1, p)" by (cases "new_node ns n")
  from new_node_consistent[OF assms nn]
  have c1: "consistent ns1" and k1: "keeps_first_seen ns ns1" and p: "p < nxt ns1" by simp_all
  from addOrUpdateNode_consistent[OF c1 p] k1 show ?thesis
    by (auto simp: upsert_def nn intro: keeps_first_seen_trans)
qed

lemma foldl_consistent:
  assumes step: "\<And>s x. consistent s \<Longrightarrow> consistent (g s x) \<and> keeps_first_seen s (g s x)"
    and "consistent ns"
  shows "consistent (foldl g ns xs) \<and> keeps_first_seen ns (foldl g ns xs)"
  using assms(2)
proof (induction xs arbitrary: ns)
  case Nil
  then show ?case by (simp add: keeps_first_seen_refl)
next
  case (Cons x xs)
  from step[OF Cons.prems, of x] Cons.IH[of "g ns x"] show ?case
    by (auto intro: keeps_first_seen_trans)
qed

lemma merge_node_consistent:
  assumes "consistent ns"
  shows "consistent (merge_node my src now ns node) \<and>
         keeps_first_seen ns (merge_node my src now ns node)"
proof (cases "ID node = my")
  case True
  then show ?thesis using assms by (simp add: merge_node_def keeps_first_seen_refl)
next
  case False
  show ?thesis
  proof (cases "knownNodes ns (ID node)")
    case None
    then show ?thesis using False upsert_consistent[OF assms] by (simp add: merge_node_def)
  next
    case (Some p)
    define ns1 where "ns1 = (if FQDN (heap ns p) \<noteq> FQDN node
                      then assign ns p (\<lambda>n. n\<lparr>FQDN := FQDN node\<rparr>) else ns)"
    define ns2 where "ns2 = (if IP (heap ns1 p) \<noteq> IP node
                      then assign ns1 p (\<lambda>n. n\<lparr>IP := IP node\<rparr>) else ns1)"
    define ns3 where "ns3 = assign ns2 p (\<lambda>n. n\<lparr>LastSeen := now\<rparr>)"
    have r: "merge_node my src now ns node = fst (addOrUpdateNode ns3 p)"
      using False Some by (simp add: merge_node_def Let_def ns1_def ns2_def ns3_def)
    have 1: "consistent ns1 \<and> keeps_first_seen ns ns1 \<and> nxt ns1 = nxt ns"
      using assms assign_consistent[of ns "\<lambda>n. n\<lparr>FQDN := FQDN node\<rparr>" p]
      by (simp add: ns1_def keeps_first_seen_refl)
    have 2: "consistent ns2 \<and> keeps_first_seen ns1 ns2 \<and> nxt ns2 = nxt ns1"
      using 1 assign_consistent[of ns1 "\<lambda>n. n\<lparr>IP := IP node\<rparr>" p]
      by (simp add: ns2_def keeps_first_seen_refl)
    have 3: "consistent ns3 \<and> keeps_first_seen ns2 ns3 \<and> nxt ns3 = nxt ns2"
      using 2 assign_consistent[of ns2 "\<lambda>n. n\<lparr>LastSeen := now\<rparr>" p]
      by (simp add: ns3_def)
    have "p < nxt ns" using assms Some by (auto simp: consistent_def wf_cache_def)
    then have "p < nxt ns3" using 1 2 3 by simp
    from addOrUpdateNode_consistent[of ns3 p] this 3 1 2 show ?thesis
      by (auto simp: r intro: keeps_first_seen_trans)
  qed
qed

lemma MergeNodeInfo_consistent:
  assumes "consistent ns"
  shows "consistent (fst (MergeNodeInfo cfg ns info src now)) \<and>
         keeps_first_seen ns (fst (MergeNodeInfo cfg ns info src now))"
proof (cases info)
  case None
  then show ?thesis using assms by (simp add: MergeNodeInfo_def keeps_first_seen_refl)
next
  case (Some i)
  define ns1 where "ns1 = (if InfoID i \<noteq> nodeID cfg
                           then fst (upsert ns \<lparr>ID = InfoID i, FQDN = InfoFQDN i,
                                  IP = InfoIP i, DiscoveredBy = src,
                                  FirstSeen = now, LastSeen = now, IsActive = True\<rparr>)
                           else ns)"
  have 1: "consistent ns1 \<and> keeps_first_seen ns ns1"
    using upsert_consistent[OF assms] assms by (simp add: ns1_def keeps_first_seen_refl)
  have r: "fst (MergeNodeInfo cfg ns info src now)
             = foldl (merge_node (nodeID cfg) (InfoID i) now) ns1 (Nodes i)"
    by (simp add: MergeNodeInfo_def Some GetNodeID_def Let_def ns1_def)
  from foldl_consistent[of "merge_node (nodeID cfg) (InfoID i) now" ns1 "Nodes i"]
    merge_node_consistent 1
  show ?thesis unfolding r by (blast intro: keeps_first_seen_trans)
qed

lemma seed_node_consistent:
  assumes "consistent ns"
  shows "consistent (seed_node my now ns sd) \<and> keeps_first_seen ns (seed_node my now ns sd)"
  using assms upsert_consistent[OF assms]
  by (simp add: seed_node_def Let_def keeps_first_seen_refl split: option.splits)

lemma loadSeedNodes_consistent:
  assumes "consistent ns"
  shows "consistent (fst (loadSeedNodes cfg ns sc now)) \<and>
         keeps_first_seen ns (fst (loadSeedNodes cfg ns sc now))"
  using assms foldl_consistent[of "seed_node (nodeID cfg) now" ns, OF seed_node_consistent assms]
  by (auto simp: loadSeedNodes_def GetNodeID_def keeps_first_seen_refl split: sum.splits option.splits)

lemma UpdateNodeStatus_consistent:
  assumes "consistent ns"
  shows "consistent (fst (UpdateNodeStatus ns i b)) \<and>
         keeps_first_seen ns (fst (UpdateNodeStatus ns i b))"
proof (cases "knownNodes ns i")
  case None
  then show ?thesis using assms by (simp add: UpdateNodeStatus_def keeps_first_seen_refl)
next
  case (Some p)
  define ns1 where "ns1 = assign ns p (\<lambda>n. n\<lparr>IsActive := b\<rparr>)"
  have 1: "consistent ns1 \<and> keeps_first_seen ns ns1"
    using assign_consistent[of ns "\<lambda>n. n\<lparr>IsActive := b\<rparr>" p] assms by (simp add: ns1_def)
  obtain ns2 r where u: "UpdateNode ns1 (heap ns1 p) = (ns2, r)" by (cases "UpdateNode ns1 (heap ns1 p)")
  note f = UpdateNode_frame[OF u]
  have idp: "ID (heap ns1 p) = i" "knownNodes ns1 i = Some p"
    using assms Some by (auto simp: consistent_def wf_cache_def ns1_def)
  have "consistent ns2"
    using 1 f idp unfolding consistent_def wf_cache_def by (auto split: if_splits)
  moreover have "keeps_first_seen ns1 ns2"
    using f by (intro keeps_first_seenI) simp
  moreover have "fst (UpdateNodeStatus ns i b) = ns2"
    using Some u by (simp add: UpdateNodeStatus_def Let_def ns1_def[symmetric] split: option.splits)
  ultimately show ?thesis using 1 by (auto intro: keeps_first_seen_trans)
qed

lemma apply_op_consistent:
  assumes "consistent ns"
  shows "consistent (apply_op cfg ns x) \<and> keeps_first_seen ns (apply_op cfg ns x)"
  using assms
  by (cases x)
     (simp_all add: MergeNodeInfo_consistent loadSeedNodes_consistent upsert_consistent
        UpdateNodeStatus_consistent)

lemma run_consistent:
  assumes "consistent ns"
  shows "consistent (run cfg ns ops) \<and> keeps_first_seen ns (run cfg ns ops)"
  unfolding run_def using foldl_consistent[of "apply_op cfg" ns ops] apply_op_consistent assms
  by blast

lemma addOrUpdateNode_excluded:
  assumes "self_excluded my ns" "p < nxt ns" "ID (heap ns p) \<noteq> my"
  shows "self_excluded my (fst (addOrUpdateNode ns p))"
proof -
  obtain ns' r where eq: "addOrUpdateNode ns p = (ns', r)" by (cases "addOrUpdateNode ns p")
  note e = addOrUpdateNode_effect[OF eq]
  have "wf_cache ns'" using addOrUpdateNode_wf[of ns p] assms by (simp add: eq self_excluded_def)
  moreover have "knownNodes ns' my = None"
    using e(4,5) assms by (cases r) (auto simp: self_excluded_def)
  ultimately show ?thesis by (simp add: eq self_excluded_def)
qed

lemma new_node_wf:
  assumes "wf_cache ns" "new_node ns n = (ns1, p)"
  shows "wf_cache ns1 \<and> p < nxt ns1 \<and> heap ns1 p = n \<and> knownNodes ns1 = knownNodes ns"
proof -
  have lt: "knownNodes ns k = Some q \<Longrightarrow> q < nxt ns \<and> ID (heap ns q) = k" for k q
    using assms(1) by (simp add: wf_cache_def)
  have eqs: "p = nxt ns" "nxt ns1 = Suc (nxt ns)" "heap ns1 = (heap ns)(nxt ns := n)"
    "knownNodes ns1 = knownNodes ns"
    using assms(2) by (auto simp: new_node_def)
  have "wf_cache ns1"
    unfolding wf_cache_def using lt by (fastforce simp: eqs)
  then show ?thesis by (simp add: eqs)
qed

lemma upsert_excluded:
  assumes "self_excluded my ns" "ID n \<noteq> my"
  shows "self_excluded my (fst (upsert ns n))"
proof -
  obtain ns1 p where nn: "new_node ns n = (ns1, p)" by (cases "new_node ns n")
  from new_node_wf[OF _ nn] assms(1)
  have "self_excluded my ns1" "p < nxt ns1" "heap ns1 p = n" by (simp_all add: self_excluded_def)
  with addOrUpdateNode_excluded[of my ns1 p] assms(2) show ?thesis by (simp add: upsert_def nn)
qed

lemma assign_excluded:
  assumes "self_excluded my ns" "ID (f (heap ns p)) = ID (heap ns p)"
  shows "self_excluded my (assign ns p f)"
  using assms unfolding self_excluded_def wf_cache_def assign_def by auto

lemma merge_node_excluded:
  assumes "self_excluded my ns"
  shows "self_excluded my (merge_node my src now ns node)"
proof (cases "ID node = my")
  case True
  then show ?thesis using assms by (simp add: merge_node_def)
next
  case False
  show ?thesis
  proof (cases "knownNodes ns (ID node)")
    case None
    then show ?thesis using False upsert_excluded[OF assms] by (simp add: merge_node_def)
  next
    case (Some p)
    define ns1 where "ns1 = (if FQDN (heap ns p) \<noteq> FQDN node
                      then assign ns p (\<lambda>n. n\<lparr>FQDN := FQDN node\<rparr>) else ns)"
    define ns2 where "ns2 = (if IP (heap ns1 p) \<noteq> IP node
                      then assign ns1 p (\<lambda>n. n\<lparr>IP := IP node\<rparr>) else ns1)"
    define ns3 where "ns3 = assign ns2 p (\<lambda>n. n\<lparr>LastSeen := now\<rparr>)"
    have r: "merge_node my src now ns node = fst (addOrUpdateNode ns3 p)"
      using False Some by (simp add: merge_node_def Let_def ns1_def ns2_def ns3_def)
    have p: "p < nxt ns" "ID (heap ns p) = ID node"
      using assms Some by (auto simp: self_excluded_def wf_cache_def)
    have 1: "self_excluded my ns1 \<and> nxt ns1 = nxt ns \<and> ID (heap ns1 p) = ID node"
      using assms p assign_excluded[of my ns "\<lambda>n. n\<lparr>FQDN := FQDN node\<rparr>" p]
      by (simp add: ns1_def)
    have 2: "self_excluded my ns2 \<and> nxt ns2 = nxt ns \<and> ID (heap ns2 p) = ID node"
      using 1 assign_excluded[of my ns1 "\<lambda>n. n\<lparr>IP := IP node\<rparr>" p]
      by (simp add: ns2_def)
    have 3: "self_excluded my ns3 \<and> nxt ns3 = nxt ns \<and> ID (heap ns3 p) = ID node"
      using 2 assign_excluded[of my ns2 "\<lambda>n. n\<lparr>LastSeen := now\<rparr>" p]
      by (simp add: ns3_def)
    from addOrUpdateNode_excluded[of my ns3 p] 3 p False show ?thesis
      by (simp add: r)
  qed
qed

lemma foldl_invariant:
  assumes "\<And>s x. P s \<Longrightarrow> P (g s x)" "P ns"
  shows "P (foldl g ns xs)"
  using assms(2) by (induction xs arbitrary: ns) (auto intro: assms(1))

lemma MergeNodeInfo_excluded:
  assumes "self_excluded (nodeID cfg) ns"
  shows "self_excluded (nodeID cfg) (fst (MergeNodeInfo cfg ns info src now))"
proof (cases info)
  case None
  then show ?thesis using assms by (simp add: MergeNodeInfo_def)
next
  case (Some i)
  define ns1 where "ns1 = (if InfoID i \<noteq> nodeID cfg
                           then fst (upsert ns \<lparr>ID = InfoID i, FQDN = InfoFQDN i,
                                  IP = InfoIP i, DiscoveredBy = src,
                                  FirstSeen = now, LastSeen = now, IsActive = True\<rparr>)
                           else ns)"
  have 1: "self_excluded (nodeID cfg) ns1"
    using upsert_excluded[OF assms] assms by (simp add: ns1_def)
  have r: "fst (MergeNodeInfo cfg ns info src now)
             = foldl (merge_node (nodeID cfg) (InfoID i) now) ns1 (Nodes i)"
    by (simp add: MergeNodeInfo_def Some GetNodeID_def Let_def ns1_def)
  show ?thesis unfolding r
    by (rule foldl_invariant[where P = "self_excluded (nodeID cfg)"]) (simp_all add: merge_node_excluded 1)
qed

lemma seed_node_excluded:
  assumes "self_excluded my ns"
  shows "self_excluded my (seed_node my now ns sd)"
  using assms upsert_excluded[OF assms]
  by (simp add: seed_node_def Let_def split: option.splits)

lemma loadSeedNodes_excluded:
  assumes "self_excluded (nodeID cfg) ns"
  shows "self_excluded (nodeID cfg) (fst (loadSeedNodes cfg ns sc now))"
  using assms foldl_invariant[where P = "self_excluded (nodeID cfg)" and g = "seed_node (nodeID cfg) now"]
  by (auto simp: loadSeedNodes_def GetNodeID_def seed_node_excluded split: sum.splits option.splits)

lemma UpdateNodeStatus_excluded:
  assumes "self_excluded my ns"
  shows "self_excluded my (fst (UpdateNodeStatus ns i b))"
proof (cases "knownNodes ns i")
  case None
  then show ?thesis using assms by (simp add: UpdateNodeStatus_def)
next
  case (Some p)
  define ns1 where "ns1 = assign ns p (\<lambda>n. n\<lparr>IsActive := b\<rparr>)"
  have 1: "self_excluded my ns1"
    using assign_excluded[of my ns "\<lambda>n. n\<lparr>IsActive := b\<rparr>" p] assms by (simp add: ns1_def)
  obtain ns2 r where u: "UpdateNode ns1 (heap ns1 p) = (ns2, r)" by (cases "UpdateNode ns1 (heap ns1 p)")
  note f = UpdateNode_frame[OF u]
  have "self_excluded my ns2"
    using 1 f unfolding self_excluded_def wf_cache_def by simp
  moreover have "fst (UpdateNodeStatus ns i b) = ns2"
    using Some u by (simp add: UpdateNodeStatus_def Let_def ns1_def[symmetric] split: option.splits)
  ultimately show ?thesis by simp
qed

lemma apply_op_excluded:
  assumes "self_excluded (nodeID cfg) ns" "\<not> is_upsert x"
  shows "self_excluded (nodeID cfg) (apply_op cfg ns x)"
  using assms
  by (cases x) (simp_all add: MergeNodeInfo_excluded loadSeedNodes_excluded UpdateNodeStatus_excluded)

lemma run_excluded:
  assumes "self_excluded (nodeID cfg) ns" "\<forall>x\<in>set ops. \<not> is_upsert x"
  shows "self_excluded (nodeID cfg) (run cfg ns ops)"
  using assms unfolding run_def
  by (induction ops arbitrary: ns) (auto simp: apply_op_excluded)

lemma consistent_ns_q: "consistent ns_q"
  by (auto simp: consistent_def wf_cache_def ns_q_def node_q_def split: if_splits)

text \<open>
  Claim C1. In a service whose cache agrees with its table (\<open>consistent\<close>), a node that
  is in the Registry stays there with the same \<^verbatim>\<open>FirstSeen\<close>, in the cache and in its
  row, after any sequence of merges, seed loads, direct upserts and liveness flips, whatever
  their arguments and whichever repository calls fail.
\<close>

theorem first_seen_never_changes:
  assumes "consistent ns" "registry ns i = Some n"
  shows "(\<exists>n'. registry (run cfg ns ops) i = Some n' \<and> FirstSeen n' = FirstSeen n) \<and>
         (\<exists>e. nodeRepo (run cfg ns ops) i = Some e \<and> FirstSeen e = FirstSeen n)"
proof -
  from run_consistent[OF assms(1), of cfg ops]
  have c: "consistent (run cfg ns ops)" and k: "keeps_first_seen ns (run cfg ns ops)" by simp_all
  from k assms(2) obtain n' where n': "registry (run cfg ns ops) i = Some n'" "FirstSeen n' = FirstSeen n"
    unfolding keeps_first_seen_def by blast
  from n'(1) obtain p where "knownNodes (run cfg ns ops) i = Some p" "heap (run cfg ns ops) p = n'"
    by (auto simp: registry_def)
  with c n'(2) have "\<exists>e. nodeRepo (run cfg ns ops) i = Some e \<and> FirstSeen e = FirstSeen n"
    unfolding consistent_def by fastforce
  with n' show ?thesis by blast
qed

text \<open>The node \<open>q\<close>, first seen at 1, through a merge at 5, an upsert at 7, a seed
  load at 8 and a flip.\<close>

theorem first_seen_never_changes_witness:
  "consistent ns_q \<and> registry ns_q ''q'' = Some node_q \<and>
   (\<exists>n'. registry (run cfg_me ns_q ops_q) ''q'' = Some n' \<and> FirstSeen n' = 1) \<and>
   (\<exists>e. nodeRepo (run cfg_me ns_q ops_q) ''q'' = Some e \<and> FirstSeen e = 1)"
proof -
  have a: "registry ns_q ''q'' = Some node_q" by (simp add: registry_def ns_q_def)
  from first_seen_never_changes[OF consistent_ns_q a, of cfg_me ops_q] a consistent_ns_q
  show ?thesis by (simp add: node_q_def)
qed

text \<open>
  Claim C6. From a well-formed cache without an entry for the own node id, no sequence of
  merges, seed loads and liveness flips produces such an entry: the Registry has nothing
  under that key, and no node in it carries that id.
\<close>

theorem self_never_registered:
  assumes "wf_cache ns" "registry ns (nodeID cfg) = None" "\<forall>x\<in>set ops. \<not> is_upsert x"
  shows "registry (run cfg ns ops) (nodeID cfg) = None \<and>
         (\<forall>k n. registry (run cfg ns ops) k = Some n \<longrightarrow> ID n \<noteq> nodeID cfg)"
proof -
  have "self_excluded (nodeID cfg) ns" using assms(1,2) by (simp add: self_excluded_def registry_def)
  from run_excluded[OF this assms(3)]
  have wf: "wf_cache (run cfg ns ops)" and no: "knownNodes (run cfg ns ops) (nodeID cfg) = None"
    by (simp_all add: self_excluded_def)
  show ?thesis using wf no unfolding wf_cache_def registry_def by auto
qed

text \<open>A merge whose list names the own id, then a seed load.\<close>

theorem self_never_registered_witness:
  "wf_cache ns_q \<and> registry ns_q (nodeID cfg_me) = None \<and>
   registry (run cfg_me ns_q [Merge (Some (info_q\<lparr>Nodes := [node_q\<lparr>ID := ''me''\<rparr>]\<rparr>)) ''q'' 5,
       LoadSeeds (Inr (Some [\<lparr>SeedFQDN = ''a.example.com'', SeedIP = ''10.0.0.1''\<rparr>])) 8])
     (nodeID cfg_me) = None"
proof -
  have w: "wf_cache ns_q" using consistent_ns_q by (simp add: consistent_def)
  have a: "registry ns_q (nodeID cfg_me) = None" by (simp add: registry_def ns_q_def cfg_me_def)
  have b: "\<forall>x\<in>set [Merge (Some (info_q\<lparr>Nodes := [node_q\<lparr>ID := ''me''\<rparr>]\<rparr>)) ''q'' 5,
       LoadSeeds (Inr (Some [\<lparr>SeedFQDN = ''a.example.com'', SeedIP = ''10.0.0.1''\<rparr>])) 8]. \<not> is_upsert x"
    by simp
  from self_never_registered[OF w a b] w a show ?thesis by simp
qed

text \<open>
  Claim C3, at a Registry that knows the node \<open>q\<close> as discovered by \<open>p\<close>. A probe
  of \<open>q\<close> succeeds and \<^verbatim>\<open>PollNode\<close> merges the answer with \<^verbatim>\<open>discoveredBy = q\<close>.
  The reporting node is upserted although it is known, and its \<^verbatim>\<open>discovered_by\<close>
  changes from \<open>p\<close> to \<open>q\<close>: the code has no test of "not already known" before
  that upsert.
\<close>

theorem known_reporter_provenance_overwritten:
  "map_option DiscoveredBy (registry ns_q ''q'') = Some ''p'' \<and>
   map_option DiscoveredBy
     (registry (fst (MergeNodeInfo cfg_me ns_q (Some info_q) ''q'' 2)) ''q'') = Some ''q''"
  by (simp add: registry_def ns_q_def node_q_def info_q_def cfg_me_def MergeNodeInfo_def
        GetNodeID_def upsert_def new_node_def addOrUpdateNode_def GetNode_def UpdateNode_def
        take_fault_def Let_def)





text \<open>On the update path of a merge the caller has written through the cached pointer
  before the call: those writes stay in the Registry when the write-through fails.\<close>

lemma failed_merge_update_is_visible:
  "map_option FQDN
     (registry (merge_node ''me'' ''q'' 9 (ns_q\<lparr>faults := [False, True]\<rparr>)
                  (node_q\<lparr>FQDN := ''q2.example.com''\<rparr>)) ''q'') = Some ''q2.example.com'' \<and>
   map_option FQDN
     (nodeRepo (merge_node ''me'' ''q'' 9 (ns_q\<lparr>faults := [False, True]\<rparr>)
                  (node_q\<lparr>FQDN := ''q2.example.com''\<rparr>)) ''q'') = Some ''q.example.com''"
  by (simp add: registry_def ns_q_def node_q_def merge_node_def assign_def addOrUpdateNode_def
        GetNode_def UpdateNode_def take_fault_def Let_def)

text \<open>
  Claim C9 as stated fails: a successful flip of the known node \<open>q\<close> sets
  \<^verbatim>\<open>IsActive\<close> and leaves \<^verbatim>\<open>LastSeen\<close> at its old value 1.
\<close>

theorem setActive_last_seen_counterexample:
  "map_option LastSeen (registry ns_q ''q'') = Some 1 \<and>
   snd (UpdateNodeStatus ns_q ''q'' False) = None \<and>
   map_option IsActive (registry (fst (UpdateNodeStatus ns_q ''q'' False)) ''q'') = Some False \<and>
   map_option LastSeen (registry (fst (UpdateNodeStatus ns_q ''q'' False)) ''q'') = Some 1"
  by (simp add: registry_def ns_q_def node_q_def UpdateNodeStatus_def assign_def UpdateNode_def
        take_fault_def Let_def)

text \<open>
  Claim C9, amended. \<^verbatim>\<open>UpdateNodeStatus(id, b)\<close> on an unknown id fails with the
  not-found error and leaves the whole service as it was; on a known id the node read from
  the Registry afterwards is the node before with \<^verbatim>\<open>IsActive\<close> set to \<open>b\<close> and all
  other fields, \<^verbatim>\<open>LastSeen\<close> among them, unchanged (whether or not the row could be
  written).
\<close>

theorem UpdateNodeStatus_effect:
  "(registry ns i = None \<longrightarrow> UpdateNodeStatus ns i b = (ns, Some (NodeNotFound i))) \<and>
   (\<forall>n. registry ns i = Some n \<longrightarrow>
      registry (fst (UpdateNodeStatus ns i b)) i = Some (n\<lparr>IsActive := b\<rparr>))"
proof (intro conjI allI impI)
  assume "registry ns i = None"
  then show "UpdateNodeStatus ns i b = (ns, Some (NodeNotFound i))"
    by (simp add: registry_def UpdateNodeStatus_def)
next
  fix n assume "registry ns i = Some n"
  then obtain p where p: "knownNodes ns i = Some p" "heap ns p = n" by (auto simp: registry_def)
  define ns1 where "ns1 = assign ns p (\<lambda>n. n\<lparr>IsActive := b\<rparr>)"
  obtain ns2 r where u: "UpdateNode ns1 (heap ns1 p) = (ns2, r)" by (cases "UpdateNode ns1 (heap ns1 p)")
  have "fst (UpdateNodeStatus ns i b) = ns2"
    using p u by (simp add: UpdateNodeStatus_def Let_def ns1_def[symmetric] split: option.splits)
  with UpdateNode_frame[OF u] p show "registry (fst (UpdateNodeStatus ns i b)) i = Some (n\<lparr>IsActive := b\<rparr>)"
    by (simp add: registry_def ns1_def)
qed

text \<open>Both cases at the Registry that knows \<open>q\<close> only.\<close>

theorem UpdateNodeStatus_effect_witness:
  "registry ns_q ''q'' = Some node_q \<and>
   registry (fst (UpdateNodeStatus ns_q ''q'' False)) ''q'' = Some (node_q\<lparr>IsActive := False\<rparr>) \<and>
   registry ns_q ''zz'' = None \<and>
   UpdateNodeStatus ns_q ''zz'' False = (ns_q, Some (NodeNotFound ''zz''))"
proof -
  have a: "registry ns_q ''q'' = Some node_q" and b: "registry ns_q ''zz'' = None"
    by (simp_all add: registry_def ns_q_def)
  from UpdateNodeStatus_effect[of ns_q "''q''" False] UpdateNodeStatus_effect[of ns_q "''zz''" False] a b
  show ?thesis by simp
qed

section \<open>Start-up\<close>

lemma cache_row_loaded:
  assumes "wf_cache ns"
    and "\<forall>k p. knownNodes ns k = Some p \<longrightarrow> nodeRepo ns k = Some (heap ns p)"
    and "nodeRepo ns (ID node) = Some node"
  shows "wf_cache (cache_row ns node) \<and>
         (\<forall>k p. knownNodes (cache_row ns node) k = Some p \<longrightarrow>
            nodeRepo (cache_row ns node) k = Some (heap (cache_row ns node) p)) \<and>
         nodeRepo (cache_row ns node) = nodeRepo ns"
proof -
  have lt: "knownNodes ns k = Some q \<Longrightarrow> q < nxt ns \<and> ID (heap ns q) = k" for k q
    using assms(1) by (simp add: wf_cache_def)
  have lt': "knownNodes ns k = Some q \<Longrightarrow> q \<noteq> nxt ns" for k q
    using lt[of k q] by auto
  show ?thesis
    using assms(2,3) lt lt'
    unfolding cache_row_def new_node_def wf_cache_def
    by (auto simp: less_Suc_eq)
qed

lemma cache_rows_loaded:
  assumes "knownNodes ns = Map.empty" "\<forall>n\<in>set rows. nodeRepo ns (ID n) = Some n"
  shows "consistent (foldl cache_row ns rows) \<and> nodeRepo (foldl cache_row ns rows) = nodeRepo ns"
proof -
  define J where "J = (\<lambda>s. wf_cache s \<and>
         (\<forall>k p. knownNodes s k = Some p \<longrightarrow> nodeRepo s k = Some (heap s p)) \<and>
         nodeRepo s = nodeRepo ns)"
  have J0: "J ns" using assms(1) by (simp add: J_def wf_cache_def)
  have "J (foldl cache_row s xs)" if "J s" "set xs \<subseteq> set rows" for s xs
    using that
  proof (induction xs arbitrary: s)
    case Nil
    then show ?case by simp
  next
    case (Cons x xs)
    from Cons.prems(1) have s: "wf_cache s"
      "\<forall>k p. knownNodes s k = Some p \<longrightarrow> nodeRepo s k = Some (heap s p)"
      "nodeRepo s = nodeRepo ns" unfolding J_def by blast+
    from Cons.prems(2) assms(2) s(3) have "nodeRepo s (ID x) = Some x" by simp
    from cache_row_loaded[OF s(1,2) this] s(3) have "J (cache_row s x)" unfolding J_def by metis
    with Cons.IH[of "cache_row s x"] Cons.prems(2) show ?case by simp
  qed
  from this[OF J0, of rows] have "J (foldl cache_row ns rows)" by simp
  then show ?thesis by (auto simp: J_def consistent_def)
qed

lemma rows_of_table_row:
  assumes "rows_of_table ns rows" "n \<in> set rows"
  shows "nodeRepo ns (ID n) = Some n"
proof -
  from assms(1) have d: "distinct (map fst (map (\<lambda>n. (ID n, n)) rows))"
    by (simp add: rows_of_table_def comp_def)
  from assms(2) have "(ID n, n) \<in> set (map (\<lambda>n. (ID n, n)) rows)" by auto
  with map_of_is_SomeI[OF d] assms(1) show ?thesis by (simp add: rows_of_table_def)
qed

text \<open>
  Start-up establishes the invariants that the claims about the Registry assume: from the
  empty cache of \<^verbatim>\<open>NewNodeService\<close> and any table, \<^verbatim>\<open>Initialize\<close> ends in a
  consistent service, without an entry for the own id when the table has no such row.
\<close>

lemma Initialize_consistent:
  assumes "knownNodes ns = Map.empty" "rows_of_table ns rows"
  shows "consistent (fst (Initialize cfg ns rows seedConfig now))"
    and "nodeRepo ns (nodeID cfg) = None \<Longrightarrow>
           self_excluded (nodeID cfg) (fst (Initialize cfg ns rows seedConfig now))"
proof -
  obtain ns1 r where g: "GetAllNodes ns rows = (ns1, r)" by (cases "GetAllNodes ns rows")
  then have fr: "knownNodes ns1 = knownNodes ns" "nodeRepo ns1 = nodeRepo ns"
    and r: "r = Inl RepoFailure \<or> r = Inr rows"
    by (auto simp: GetAllNodes_def split: prod.splits if_splits dest: take_fault_frame)
  have "\<forall>n\<in>set rows. nodeRepo ns1 (ID n) = Some n"
    using rows_of_table_row[OF assms(2)] fr by simp
  from cache_rows_loaded[OF _ this] assms(1) fr
  have c: "consistent (foldl cache_row ns1 rows)"
    and d: "nodeRepo (foldl cache_row ns1 rows) = nodeRepo ns" by simp_all
  have c1: "consistent ns1" using assms(1) fr by (simp add: consistent_def wf_cache_def)
  show "consistent (fst (Initialize cfg ns rows seedConfig now))"
    using r c1 loadSeedNodes_consistent[OF c] by (auto simp: Initialize_def g)
  assume no: "nodeRepo ns (nodeID cfg) = None"
  have "knownNodes (foldl cache_row ns1 rows) (nodeID cfg) = None"
  proof (cases "knownNodes (foldl cache_row ns1 rows) (nodeID cfg)")
    case (Some p)
    with c d no show ?thesis unfolding consistent_def by fastforce
  qed simp
  with c have "self_excluded (nodeID cfg) (foldl cache_row ns1 rows)"
    by (simp add: self_excluded_def consistent_def)
  from loadSeedNodes_excluded[OF this]
  show "self_excluded (nodeID cfg) (fst (Initialize cfg ns rows seedConfig now))"
    using r assms(1) fr c1 by (auto simp: Initialize_def g self_excluded_def consistent_def)
qed

section \<open>Merging twice\<close>

lemma take_fault_no_faults:
  "no_faults ns \<Longrightarrow> take_fault ns = (f, ns1) \<Longrightarrow> \<not> f \<and> no_faults ns1"
  by (auto simp: take_fault_def no_faults_def split: list.splits)

lemma no_faults_update [simp]:
  "no_faults (s\<lparr>heap := h\<rparr>) = no_faults s"
  "no_faults (s\<lparr>knownNodes := c\<rparr>) = no_faults s"
  "no_faults (s\<lparr>nodeRepo := d\<rparr>) = no_faults s"
  "no_faults (s\<lparr>nxt := m\<rparr>) = no_faults s"
  by (simp_all add: no_faults_def)

lemma GetNode_no_faults:
  "no_faults ns \<Longrightarrow> GetNode ns i = (ns1, r) \<Longrightarrow> r = Inr (nodeRepo ns i) \<and> no_faults ns1"
  by (auto simp: GetNode_def split: prod.splits if_splits
           dest: take_fault_no_faults take_fault_frame)

lemma CreateNode_no_faults:
  "no_faults ns \<Longrightarrow> nodeRepo ns (ID n) = None \<Longrightarrow> CreateNode ns n = (ns1, r) \<Longrightarrow>
     r = None \<and> no_faults ns1"
  by (auto simp: CreateNode_def split: prod.splits if_splits option.splits
           dest: take_fault_no_faults take_fault_frame)

lemma UpdateNode_no_faults:
  "no_faults ns \<Longrightarrow> UpdateNode ns n = (ns1, r) \<Longrightarrow> r = None \<and> no_faults ns1"
  by (auto simp: UpdateNode_def split: prod.splits if_splits option.splits
           dest: take_fault_no_faults take_fault_frame)

lemma addOrUpdateNode_no_faults:
  assumes "no_faults ns"
  shows "snd (addOrUpdateNode ns p) = None \<and> no_faults (fst (addOrUpdateNode ns p))"
proof -
  obtain ns1 x where g: "GetNode ns (ID (heap ns p)) = (ns1, x)"
    by (cases "GetNode ns (ID (heap ns p))")
  from GetNode_no_faults[OF assms g] GetNode_frame[OF g]
  have x: "x = Inr (nodeRepo ns (ID (heap ns p)))" and n1: "no_faults ns1"
    and fr: "heap ns1 = heap ns" "nodeRepo ns1 = nodeRepo ns" by simp_all
  show ?thesis
  proof (cases "nodeRepo ns (ID (heap ns p))")
    case None
    obtain ns2 r where cr: "CreateNode ns1 (heap ns1 p) = (ns2, r)"
      by (cases "CreateNode ns1 (heap ns1 p)")
    from CreateNode_no_faults[OF n1 _ cr] None fr have "r = None" "no_faults ns2" by simp_all
    then show ?thesis by (simp add: addOrUpdateNode_def g x None cr)
  next
    case (Some e)
    define ns1' where "ns1' = ns1\<lparr>heap := (heap ns1)(p := (heap ns1 p)\<lparr>FirstSeen := FirstSeen e\<rparr>)\<rparr>"
    obtain ns2 r where up: "UpdateNode ns1' (heap ns1' p) = (ns2, r)"
      by (cases "UpdateNode ns1' (heap ns1' p)")
    have "no_faults ns1'" using n1 by (simp add: ns1'_def)
    from UpdateNode_no_faults[OF this up] have "r = None" "no_faults ns2" by simp_all
    then show ?thesis
      using up unfolding ns1'_def by (simp add: addOrUpdateNode_def g x Some Let_def)
  qed
qed

text \<open>A call that succeeds, on a pointer that is allocated, seen at each key.\<close>

lemma addOrUpdateNode_slots:
  assumes c: "consistent ns" and nf: "no_faults ns" and p: "p < nxt ns"
    and own: "\<forall>k. knownNodes ns k = Some p \<longrightarrow> k = ID (heap ns p)"
  shows "slot_of (fst (addOrUpdateNode ns p)) k
           = (if k = ID (heap ns p) then put (heap ns p) (slot_of ns k) else slot_of ns k)"
proof -
  obtain ns' r where eq: "addOrUpdateNode ns p = (ns', r)" by (cases "addOrUpdateNode ns p")
  from addOrUpdateNode_no_faults[OF nf, of p] have r: "r = None" by (simp add: eq)
  note e = addOrUpdateNode_effect[OF eq]
  from e(5)[OF r] have k': "knownNodes ns' = (knownNodes ns)(ID (heap ns p) \<mapsto> p)"
    and d': "nodeRepo ns' = (nodeRepo ns)(ID (heap ns p) \<mapsto> heap ns' p)"
    and f': "FirstSeen (heap ns' p) = (case nodeRepo ns (ID (heap ns p)) of
                                       None \<Rightarrow> FirstSeen (heap ns p) | Some e \<Rightarrow> FirstSeen e)"
    by simp_all
  have hp: "heap ns' p = (heap ns p)\<lparr>FirstSeen := FirstSeen (heap ns' p)\<rparr>"
    by (subst e(2)) simp
  show ?thesis
  proof (cases "k = ID (heap ns p)")
    case True
    have "put (heap ns p) (slot_of ns k) = (Some (heap ns' p), Some (heap ns' p))"
      using hp f' True by (simp add: put_def slot_of_def Let_def)
    then show ?thesis using True by (simp add: eq slot_of_def registry_def k' d')
  next
    case False
    have "heap ns' q = heap ns q" if "knownNodes ns k = Some q" for q
    proof -
      from own that False have "q \<noteq> p" by auto
      then show ?thesis by (subst e(2)) simp
    qed
    then show ?thesis using False
      by (cases "knownNodes ns k") (auto simp: eq slot_of_def registry_def k' d')
  qed
qed

lemma upsert_slots:
  assumes c: "consistent ns" and nf: "no_faults ns"
  shows "slot_of (fst (upsert ns n)) k = (if k = ID n then put n (slot_of ns k) else slot_of ns k)"
    and "no_faults (fst (upsert ns n))"
proof -
  obtain ns1 p where nn: "new_node ns n = (ns1, p)" by (cases "new_node ns n")
  from new_node_consistent[OF c nn] have c1: "consistent ns1" and p1: "p < nxt ns1" by simp_all
  have eqs: "p = nxt ns" "heap ns1 = (heap ns)(nxt ns := n)" "knownNodes ns1 = knownNodes ns"
    "nodeRepo ns1 = nodeRepo ns" "faults ns1 = faults ns"
    using nn by (auto simp: new_node_def)
  have lt: "knownNodes ns k = Some q \<Longrightarrow> q < nxt ns" for k q
    using c by (auto simp: consistent_def wf_cache_def)
  have nf1: "no_faults ns1" using nf by (simp add: no_faults_def eqs)
  have fresh: "knownNodes ns1 k \<noteq> Some p" for k using lt[of k p] by (auto simp: eqs)
  have same: "slot_of ns1 k = slot_of ns k" for k
    using lt[of k] by (cases "knownNodes ns k") (auto simp: slot_of_def registry_def eqs)
  have hp: "heap ns1 p = n" by (simp add: eqs)
  from fresh have "\<forall>k. knownNodes ns1 k = Some p \<longrightarrow> k = ID (heap ns1 p)" by simp
  from addOrUpdateNode_slots[OF c1 nf1 p1 this, of k]
  show "slot_of (fst (upsert ns n)) k = (if k = ID n then put n (slot_of ns k) else slot_of ns k)"
    by (simp add: upsert_def nn hp same)
  from addOrUpdateNode_no_faults[OF nf1, of p] show "no_faults (fst (upsert ns n))"
    by (simp add: upsert_def nn)
qed

lemma FQDN_same: "FQDN e = x \<Longrightarrow> e\<lparr>FQDN := x\<rparr> = e"
  by (cases e) simp

lemma IP_same: "IP e = x \<Longrightarrow> e\<lparr>IP := x\<rparr> = e"
  by (cases e) simp

lemma merge_node_known:
  assumes "ID node \<noteq> my" "knownNodes ns (ID node) = Some p"
  shows "merge_node my src now ns node
           = fst (addOrUpdateNode
                    (assign ns p (\<lambda>n. n\<lparr>FQDN := FQDN node, IP := IP node, LastSeen := now\<rparr>)) p)"
proof -
  have "(let ns1 = (if FQDN (heap ns p) \<noteq> FQDN node
                      then assign ns p (\<lambda>n. n\<lparr>FQDN := FQDN node\<rparr>) else ns);
             ns2 = (if IP (heap ns1 p) \<noteq> IP node
                      then assign ns1 p (\<lambda>n. n\<lparr>IP := IP node\<rparr>) else ns1)
         in assign ns2 p (\<lambda>n. n\<lparr>LastSeen := now\<rparr>))
        = assign ns p (\<lambda>n. n\<lparr>FQDN := FQDN node, IP := IP node, LastSeen := now\<rparr>)"
    by (auto simp: assign_def Let_def FQDN_same IP_same)
  then show ?thesis using assms by (simp add: merge_node_def Let_def)
qed

lemma merge_node_slots:
  assumes c: "consistent ns" and nf: "no_faults ns"
  shows "slot_of (merge_node my src now ns node) k
           = (if k = ID node \<and> ID node \<noteq> my then slot_step src now (slot_of ns k) node
              else slot_of ns k)"
    and "no_faults (merge_node my src now ns node)"
proof -
  have wf: "wf_cache ns" using c by (simp add: consistent_def)
  show "slot_of (merge_node my src now ns node) k
           = (if k = ID node \<and> ID node \<noteq> my then slot_step src now (slot_of ns k) node
              else slot_of ns k)"
  proof (cases "ID node = my")
    case True
    then show ?thesis by (simp add: merge_node_def)
  next
    case False
    show ?thesis
    proof (cases "knownNodes ns (ID node)")
      case None
      then have "merge_node my src now ns node
                   = fst (upsert ns \<lparr>ID = ID node, FQDN = FQDN node, IP = IP node,
                            DiscoveredBy = src, FirstSeen = now, LastSeen = now, IsActive = True\<rparr>)"
        using False by (simp add: merge_node_def)
      with upsert_slots(1)[OF c nf, of _ k] None False show ?thesis
        by (simp add: slot_step_def slot_of_def registry_def)
    next
      case (Some p)
      define g :: "Node \<Rightarrow> Node"
        where "g = (\<lambda>n. n\<lparr>FQDN := FQDN node, IP := IP node, LastSeen := now\<rparr>)"
      define ns3 where "ns3 = assign ns p g"
      have r: "merge_node my src now ns node = fst (addOrUpdateNode ns3 p)"
        using merge_node_known[OF False Some] by (simp add: ns3_def g_def)
      from wf_cacheD[OF wf Some] have p: "p < nxt ns" "ID (heap ns p) = ID node" by simp_all
      have c3: "consistent ns3"
        using assign_consistent[of ns g p] c by (simp add: ns3_def g_def)
      have nf3: "no_faults ns3" using nf by (simp add: ns3_def assign_def)
      have hp: "heap ns3 p = g (heap ns p)" by (simp add: ns3_def)
      have idp: "ID (heap ns3 p) = ID node" using p by (simp add: hp g_def)
      have own: "\<forall>k'. knownNodes ns3 k' = Some p \<longrightarrow> k' = ID (heap ns3 p)"
        using wf_cacheD[OF wf, of _ p] p by (simp add: ns3_def g_def)
      have others: "slot_of ns3 k' = slot_of ns k'" if "k' \<noteq> ID node" for k'
      proof (cases "knownNodes ns k'")
        case None
        then show ?thesis by (simp add: slot_of_def registry_def ns3_def)
      next
        case (Some q)
        with wf_cacheD[OF wf Some] p that have "q \<noteq> p" by auto
        then show ?thesis using Some by (simp add: slot_of_def registry_def ns3_def assign_def)
      qed
      have here: "slot_of ns3 (ID node) = (Some (g (heap ns p)), nodeRepo ns (ID node))"
        using Some by (simp add: slot_of_def registry_def ns3_def)
      have before: "slot_of ns (ID node) = (Some (heap ns p), nodeRepo ns (ID node))"
        using Some by (simp add: slot_of_def registry_def)
      have p3: "p < nxt ns3" using p by (simp add: ns3_def)
      have "slot_of (fst (addOrUpdateNode ns3 p)) k
              = (if k = ID node then put (g (heap ns p)) (slot_of ns3 k) else slot_of ns3 k)"
        using addOrUpdateNode_slots[OF c3 nf3 p3 own, of k] idp by (simp add: hp)
      then show ?thesis
        using False others[of k]
        by (auto simp: r here before slot_step_def put_def g_def)
    qed
  qed
  show "no_faults (merge_node my src now ns node)"
  proof (cases "ID node \<noteq> my \<and> knownNodes ns (ID node) \<noteq> None")
    case True
    then obtain p where "knownNodes ns (ID node) = Some p" by auto
    with True merge_node_known[of node my ns p src now]
      addOrUpdateNode_no_faults[of "assign ns p (\<lambda>n. n\<lparr>FQDN := FQDN node, IP := IP node, LastSeen := now\<rparr>)" p]
      nf
    show ?thesis by (simp add: assign_def)
  next
    case False
    then show ?thesis using nf upsert_slots(2)[OF c nf]
      by (auto simp: merge_node_def)
  qed
qed

lemma merge_fold_slots:
  assumes "consistent ns" "no_faults ns"
  shows "slot_of (foldl (merge_node my src now) ns xs) k
           = foldl (slot_step src now) (slot_of ns k) (filter (\<lambda>n. ID n = k \<and> ID n \<noteq> my) xs) \<and>
         no_faults (foldl (merge_node my src now) ns xs)"
  using assms
proof (induction xs arbitrary: ns)
  case Nil
  then show ?case by simp
next
  case (Cons x xs)
  from merge_node_consistent[OF Cons.prems(1), of my src now x]
    merge_node_slots[OF Cons.prems, of my src now x]
  have "consistent (merge_node my src now ns x)" "no_faults (merge_node my src now ns x)"
    and st: "slot_of (merge_node my src now ns x) k
           = (if k = ID x \<and> ID x \<noteq> my then slot_step src now (slot_of ns k) x else slot_of ns k)"
    by simp_all
  from Cons.IH[OF this(1,2)] st show ?case by auto
qed

lemma MergeNodeInfo_slots:
  assumes c: "consistent ns" and nf: "no_faults ns"
  shows "slot_of (fst (MergeNodeInfo cfg ns (Some info) src now)) k
           = slot_merge (nodeID cfg) info src now k (slot_of ns k)"
    and "no_faults (fst (MergeNodeInfo cfg ns (Some info) src now))"
proof -
  define n0 where "n0 = \<lparr>ID = InfoID info, FQDN = InfoFQDN info, IP = InfoIP info,
                   DiscoveredBy = src, FirstSeen = now, LastSeen = now, IsActive = True\<rparr>"
  define ns1 where "ns1 = (if InfoID info \<noteq> nodeID cfg then fst (upsert ns n0) else ns)"
  have r: "fst (MergeNodeInfo cfg ns (Some info) src now)
             = foldl (merge_node (nodeID cfg) (InfoID info) now) ns1 (Nodes info)"
    by (simp add: MergeNodeInfo_def GetNodeID_def Let_def ns1_def n0_def)
  have c1: "consistent ns1" using upsert_consistent[OF c, of n0] c by (simp add: ns1_def)
  have nf1: "no_faults ns1" using upsert_slots(2)[OF c nf, of n0] nf by (simp add: ns1_def)
  have s1: "slot_of ns1 k = (if k = InfoID info \<and> InfoID info \<noteq> nodeID cfg
                             then put n0 (slot_of ns k) else slot_of ns k)"
    using upsert_slots(1)[OF c nf, of n0 k] by (auto simp: ns1_def n0_def)
  note f = merge_fold_slots[OF c1 nf1, of "nodeID cfg" "InfoID info" now "Nodes info"]
  show "slot_of (fst (MergeNodeInfo cfg ns (Some info) src now)) k
           = slot_merge (nodeID cfg) info src now k (slot_of ns k)"
    using f[of k] by (simp add: r s1 slot_merge_def n0_def)
  show "no_faults (fst (MergeNodeInfo cfg ns (Some info) src now))"
    using f[of k] by (simp add: r)
qed

lemma slot_step_present:
  "slot_step src now (Some e, Some e) y
     = (Some (e\<lparr>FQDN := FQDN y, IP := IP y, LastSeen := now\<rparr>),
        Some (e\<lparr>FQDN := FQDN y, IP := IP y, LastSeen := now\<rparr>))"
  by (simp add: slot_step_def put_def Let_def)

lemma slot_fold_present:
  "foldl (slot_step src now) (Some e, Some e) ys
     = (if ys = [] then (Some e, Some e)
        else (Some (e\<lparr>FQDN := FQDN (last ys), IP := IP (last ys), LastSeen := now\<rparr>),
              Some (e\<lparr>FQDN := FQDN (last ys), IP := IP (last ys), LastSeen := now\<rparr>)))"
  by (induction ys rule: rev_induct) (simp_all add: slot_step_present)

text \<open>The first round for a key, from a slot of a consistent service.\<close>

lemma slot_step_first:
  assumes "slot_ok k v"
  shows "\<exists>a. slot_step src now v y = (Some a, Some a) \<and>
             FQDN a = FQDN y \<and> IP a = IP y \<and> LastSeen a = now"
proof (cases "fst v")
  case None
  then show ?thesis by (simp add: slot_step_def put_def Let_def)
next
  case (Some e)
  with assms obtain d where "snd v = Some d" "FirstSeen d = FirstSeen e"
    by (auto simp: slot_ok_def)
  with Some show ?thesis by (simp add: slot_step_def put_def Let_def)
qed

lemma stamp_last:
  assumes "ys \<noteq> [] \<Longrightarrow> FQDN a = FQDN (last ys) \<and> IP a = IP (last ys)"
  shows "ys \<noteq> [] \<Longrightarrow>
           a\<lparr>FQDN := FQDN (last ys), IP := IP (last ys), LastSeen := t\<rparr> = a\<lparr>LastSeen := t\<rparr>"
  using assms by (cases a) simp

lemma slot_merge_twice:
  assumes ok: "slot_ok k v"
  shows "slot_merge my info src now2 k (slot_merge my info src now1 k v)
         = (if (k = InfoID info \<and> InfoID info \<noteq> my) \<or>
               filter (\<lambda>n. ID n = k \<and> ID n \<noteq> my) (Nodes info) \<noteq> []
            then (stamp now2 (fst (slot_merge my info src now1 k v)),
                  stamp now2 (snd (slot_merge my info src now1 k v)))
            else slot_merge my info src now1 k v)"
proof -
  define ys where "ys = filter (\<lambda>n. ID n = k \<and> ID n \<noteq> my) (Nodes info)"
  define n0 where "n0 = (\<lambda>now. \<lparr>ID = InfoID info, FQDN = InfoFQDN info, IP = InfoIP info,
                   DiscoveredBy = src, FirstSeen = now, LastSeen = now, IsActive = True\<rparr>)"
  have sm: "slot_merge my info src now k w
              = foldl (slot_step (InfoID info) now)
                  (if k = InfoID info \<and> InfoID info \<noteq> my then put (n0 now) w else w) ys"
    for now w
    by (simp add: slot_merge_def ys_def n0_def)
  show ?thesis
  proof (cases "k = InfoID info \<and> InfoID info \<noteq> my")
    case True
    have sm1: "slot_merge my info src now k w = foldl (slot_step (InfoID info) now) (put (n0 now) w) ys"
      for now w unfolding sm using True by (rule_tac if_P[THEN arg_cong[where f = "\<lambda>x. foldl (slot_step (InfoID info) now) x ys"]])
    define f where "f = (case snd v of None \<Rightarrow> now1 | Some e \<Rightarrow> FirstSeen e)"
    define a where "a = (n0 now1)\<lparr>FirstSeen := f\<rparr>"
    have p1: "put (n0 now1) v = (Some a, Some a)"
      by (simp add: put_def Let_def a_def f_def n0_def split: option.splits)
    define a1 where "a1 = (if ys = [] then a
                           else a\<lparr>FQDN := FQDN (last ys), IP := IP (last ys), LastSeen := now1\<rparr>)"
    have s1: "slot_merge my info src now1 k v = (Some a1, Some a1)"
      unfolding sm1 p1 slot_fold_present a1_def by simp
    have fa1: "FirstSeen a1 = f" by (simp add: a1_def a_def)
    have p2: "put (n0 now2) (Some a1, Some a1) = (Some (a\<lparr>LastSeen := now2\<rparr>), Some (a\<lparr>LastSeen := now2\<rparr>))"
      by (simp add: put_def Let_def fa1 a_def n0_def)
    have "slot_merge my info src now2 k (Some a1, Some a1)
            = (Some (a1\<lparr>LastSeen := now2\<rparr>), Some (a1\<lparr>LastSeen := now2\<rparr>))"
      unfolding sm1 p2 slot_fold_present by (simp add: a1_def)
    moreover have yc: "(k = InfoID info \<and> InfoID info \<noteq> my) \<or> ys \<noteq> []" using True by simp
    ultimately show ?thesis unfolding ys_def[symmetric] s1
      by (subst if_P[OF yc]) (simp add: stamp_def)
  next
    case False
    have sm2: "slot_merge my info src now k w = foldl (slot_step (InfoID info) now) w ys"
      for now w unfolding sm using False by (rule_tac if_not_P[THEN arg_cong[where f = "\<lambda>x. foldl (slot_step (InfoID info) now) x ys"]])
    show ?thesis
    proof (cases ys)
      case Nil
      with False have nc: "\<not> ((k = InfoID info \<and> InfoID info \<noteq> my) \<or> ys \<noteq> [])" by simp
      show ?thesis unfolding ys_def[symmetric]
        by (subst if_not_P[OF nc]) (simp add: sm2 Nil)
    next
      case (Cons y ys')
      from slot_step_first[OF ok, of "InfoID info" now1 y]
      obtain a where a: "slot_step (InfoID info) now1 v y = (Some a, Some a)"
        "FQDN a = FQDN y" "IP a = IP y" "LastSeen a = now1" by blast
      define a1 where "a1 = (if ys' = [] then a
                           else a\<lparr>FQDN := FQDN (last ys'), IP := IP (last ys'), LastSeen := now1\<rparr>)"
      have s1: "slot_merge my info src now1 k v = (Some a1, Some a1)"
        unfolding sm2 by (simp add: Cons a slot_fold_present a1_def)
      have l: "FQDN a1 = FQDN (last ys) \<and> IP a1 = IP (last ys)"
        using a by (simp add: a1_def Cons)
      have ne: "ys \<noteq> []" by (simp add: Cons)
      have "slot_merge my info src now2 k (Some a1, Some a1)
            = (Some (a1\<lparr>LastSeen := now2\<rparr>), Some (a1\<lparr>LastSeen := now2\<rparr>))"
        unfolding sm2 using ne stamp_last[of ys a1 now2] l
        by (simp add: slot_fold_present)
      moreover have yc: "(k = InfoID info \<and> InfoID info \<noteq> my) \<or> ys \<noteq> []" using ne by simp
      ultimately show ?thesis unfolding ys_def[symmetric] s1
        by (subst if_P[OF yc]) (simp add: stamp_def)
    qed
  qed
qed

lemma consistent_slot_ok: "consistent ns \<Longrightarrow> slot_ok k (slot_of ns k)"
  by (auto simp: consistent_def wf_cache_def slot_ok_def slot_of_def registry_def)

lemma touched_iff:
  "k \<in> touched cfg info \<longleftrightarrow>
     (k = InfoID info \<and> InfoID info \<noteq> nodeID cfg) \<or>
     filter (\<lambda>n. ID n = k \<and> ID n \<noteq> nodeID cfg) (Nodes info) \<noteq> []"
  by (auto simp: touched_def filter_empty_conv)

text \<open>
  Claim C2 as stated fails. The Registry knows \<open>q\<close>; a report of \<open>q\<close> lists the new
  node \<open>r\<close>. In the first merge the \<^verbatim>\<open>INSERT\<close> of \<open>r\<close> fails (the fourth
  repository call), so that \<open>r\<close> is not in the Registry after one merge; the second merge
  of the same report creates it, first seen at the time of the second merge.
\<close>

theorem failed_insert_breaks_idempotence:
  "consistent (ns_q\<lparr>faults := [False, False, False, True]\<rparr>) \<and>
   registry (fst (MergeNodeInfo cfg_me (ns_q\<lparr>faults := [False, False, False, True]\<rparr>)
                    (Some info_qr) ''q'' 5)) ''r'' = None \<and>
   map_option FirstSeen
     (registry (fst (MergeNodeInfo cfg_me
                       (fst (MergeNodeInfo cfg_me (ns_q\<lparr>faults := [False, False, False, True]\<rparr>)
                               (Some info_qr) ''q'' 5))
                       (Some info_qr) ''q'' 9)) ''r'') = Some 9"
proof -
  have "consistent (ns_q\<lparr>faults := [False, False, False, True]\<rparr>)"
    using consistent_ns_q by (simp add: consistent_def wf_cache_def)
  then show ?thesis
    by (simp add: registry_def ns_q_def node_q_def info_qr_def cfg_me_def MergeNodeInfo_def
        GetNodeID_def upsert_def new_node_def addOrUpdateNode_def GetNode_def UpdateNode_def
        CreateNode_def merge_node_def take_fault_def Let_def)
qed

text \<open>
  Claim C2, amended. Take a service whose cache agrees with its table and whose repository
  answers every call of the two merges. Merging the same node info a second time, with the same source and the same
  own id, changes nothing but \<^verbatim>\<open>LastSeen\<close>: under every key that the merge addresses
  (the reporting node and the listed nodes, the own id apart) the cached node and the row
  after the second merge are those after the first with \<^verbatim>\<open>LastSeen\<close> set to the time of
  the second; under every other key they are the same.
\<close>

theorem merge_twice_only_advances_last_seen:
  assumes "consistent ns" "no_faults ns"
  shows "registry (fst (MergeNodeInfo cfg (fst (MergeNodeInfo cfg ns (Some info) src now1))
                          (Some info) src now2)) k
           = (if k \<in> touched cfg info
              then stamp now2 (registry (fst (MergeNodeInfo cfg ns (Some info) src now1)) k)
              else registry (fst (MergeNodeInfo cfg ns (Some info) src now1)) k) \<and>
         nodeRepo (fst (MergeNodeInfo cfg (fst (MergeNodeInfo cfg ns (Some info) src now1))
                          (Some info) src now2)) k
           = (if k \<in> touched cfg info
              then stamp now2 (nodeRepo (fst (MergeNodeInfo cfg ns (Some info) src now1)) k)
              else nodeRepo (fst (MergeNodeInfo cfg ns (Some info) src now1)) k)"
proof -
  define ns1 where "ns1 = fst (MergeNodeInfo cfg ns (Some info) src now1)"
  define ns2 where "ns2 = fst (MergeNodeInfo cfg ns1 (Some info) src now2)"
  have c1: "consistent ns1" using MergeNodeInfo_consistent[OF assms(1)] by (simp add: ns1_def)
  have nf1: "no_faults ns1" using MergeNodeInfo_slots(2)[OF assms] by (simp add: ns1_def)
  have s1: "slot_of ns1 k = slot_merge (nodeID cfg) info src now1 k (slot_of ns k)"
    using MergeNodeInfo_slots(1)[OF assms] by (simp add: ns1_def)
  have "slot_of ns2 k = slot_merge (nodeID cfg) info src now2 k (slot_of ns1 k)"
    using MergeNodeInfo_slots(1)[OF c1 nf1] by (simp add: ns2_def)
  also have "\<dots> = (if k \<in> touched cfg info
                    then (stamp now2 (fst (slot_of ns1 k)), stamp now2 (snd (slot_of ns1 k)))
                    else slot_of ns1 k)"
    unfolding s1 slot_merge_twice[OF consistent_slot_ok[OF assms(1)]] touched_iff by simp
  finally have "slot_of ns2 k = (if k \<in> touched cfg info
                    then (stamp now2 (fst (slot_of ns1 k)), stamp now2 (snd (slot_of ns1 k)))
                    else slot_of ns1 k)" .
  then show ?thesis
    unfolding ns1_def[symmetric] ns2_def[symmetric] by (simp add: slot_of_def split: if_splits)
qed

text \<open>
  The Registry that knows \<open>q\<close>, and a report of \<open>q\<close> that lists a new node \<open>r\<close>
  and the own id.
\<close>

theorem merge_twice_only_advances_last_seen_witness:
  "consistent ns_q \<and> no_faults ns_q \<and> ''r'' \<in> touched cfg_me info_qr \<and>
   registry (fst (MergeNodeInfo cfg_me (fst (MergeNodeInfo cfg_me ns_q (Some info_qr) ''q'' 5))
                    (Some info_qr) ''q'' 9)) ''r''
     = stamp 9 (registry (fst (MergeNodeInfo cfg_me ns_q (Some info_qr) ''q'' 5)) ''r'') \<and>
   registry (fst (MergeNodeInfo cfg_me (fst (MergeNodeInfo cfg_me ns_q (Some info_qr) ''q'' 5))
                    (Some info_qr) ''q'' 9)) ''zz''
     = registry (fst (MergeNodeInfo cfg_me ns_q (Some info_qr) ''q'' 5)) ''zz''"
proof -
  have nf: "no_faults ns_q" by (simp add: no_faults_def ns_q_def)
  have t: "''r'' \<in> touched cfg_me info_qr" "''zz'' \<notin> touched cfg_me info_qr"
    by (simp_all add: touched_def cfg_me_def info_qr_def)
  from merge_twice_only_advances_last_seen[OF consistent_ns_q nf, of cfg_me info_qr "''q''" 5 9 "''r''"]
    merge_twice_only_advances_last_seen[OF consistent_ns_q nf, of cfg_me info_qr "''q''" 5 9 "''zz''"]
    t nf consistent_ns_q
  show ?thesis by (simp only: if_True if_False simp_thms)
qed

lemma merge_example_values:
  "map_option LastSeen (registry (fst (MergeNodeInfo cfg_me ns_q (Some info_qr) ''q'' 5)) ''r'') = Some 5 \<and>
   map_option DiscoveredBy (registry (fst (MergeNodeInfo cfg_me ns_q (Some info_qr) ''q'' 5)) ''r'') = Some ''q''"
  by (simp add: registry_def ns_q_def node_q_def info_qr_def cfg_me_def MergeNodeInfo_def
        GetNodeID_def upsert_def new_node_def addOrUpdateNode_def GetNode_def UpdateNode_def
        CreateNode_def merge_node_def take_fault_def Let_def)

section \<open>Properties of the polling service\<close>

subsection \<open>What a probe returns\<close>

text \<open>
  Claim C10. Every probe that completes, whatever the peer answered (a node info, a timeout
  or a transport error), makes \<^verbatim>\<open>PollNode\<close> return a nil error. A failed probe shows
  only in the \<^verbatim>\<open>PollResult\<close>: \<^verbatim>\<open>Success\<close> is false and \<^verbatim>\<open>Error\<close> holds the text
  of the failure; after a successful probe \<^verbatim>\<open>Success\<close> is true and \<^verbatim>\<open>Error\<close> is empty.
\<close>

theorem PollNode_returns_nil_error:
  "snd (fst (PollNode cfg env ps ns node)) = None \<and>
   Success (fst (fst (PollNode cfg env ps ns node)))
     = (case getNodeInfo env (nodeURL node) of Inl e \<Rightarrow> False | Inr nodeInfo \<Rightarrow> True) \<and>
   Error (fst (fst (PollNode cfg env ps ns node)))
     = (case getNodeInfo env (nodeURL node) of Inl e \<Rightarrow> e | Inr nodeInfo \<Rightarrow> [])"
  by (simp add: PollNode_def Let_def TestPathMTU_def split: sum.splits prod.splits option.splits)

subsection \<open>Path discovery\<close>

text \<open>The binary search has no failing exit: it answers with a size whatever the network did.\<close>

lemma binarySearchMTU_no_error: "snd (binarySearchMTU t k mn mx) = None"
proof (induction t k mn mx rule: binarySearchMTU.induct)
  case (1 t k mn mx)
  then show ?case by (subst binarySearchMTU.simps) (simp add: Let_def)
qed

lemma try_sizes_all_fail: "try_sizes (\<lambda>k mtu. False) k xs = (None, k + length xs)"
  by (induction xs arbitrary: k) auto

lemma discover_all_fail: "discoverPathMTU (\<lambda>k mtu. False) = (576, None)"
  by (simp add: discoverPathMTU_def try_sizes_all_fail mtuSizes_def half_def binarySearchMTU.simps)

lemma try_sizes_first_fit:
  "i < length xs \<Longrightarrow> t (k + i) (xs ! i) \<Longrightarrow> (\<forall>j<i. \<not> t (k + j) (xs ! j)) \<Longrightarrow>
     try_sizes t k xs = (Some (xs ! i), Suc (k + i))"
proof (induction xs arbitrary: k i)
  case Nil
  then show ?case by simp
next
  case (Cons x xs)
  show ?case
  proof (cases i)
    case 0
    with Cons.prems show ?thesis by simp
  next
    case (Suc i')
    from Cons.prems(3) Suc have x: "\<not> t k x" by fastforce
    have "\<forall>j<i'. \<not> t (Suc k + j) (xs ! j)"
    proof (intro allI impI)
      fix j assume "j < i'"
      with Cons.prems(3)[rule_format, of "Suc j"] Suc show "\<not> t (Suc k + j) (xs ! j)" by simp
    qed
    with Cons.IH[of i' "Suc k"] Cons.prems(1,2) Suc x show ?thesis by simp
  qed
qed

lemma try_sizes_none_fit:
  "(\<forall>j<length xs. \<not> t (k + j) (xs ! j)) \<Longrightarrow> try_sizes t k xs = (None, k + length xs)"
proof (induction xs arbitrary: k)
  case Nil
  then show ?case by simp
next
  case (Cons x xs)
  from Cons.prems have x: "\<not> t k x" by fastforce
  have "\<forall>j<length xs. \<not> t (Suc k + j) (xs ! j)"
  proof (intro allI impI)
    fix j assume "j < length xs"
    with Cons.prems[rule_format, of "Suc j"] show "\<not> t (Suc k + j) (xs ! j)" by simp
  qed
  with Cons.IH[of "Suc k"] x show ?case by simp
qed

text \<open>The fixed candidates are tried in their order and the first that is transmitted wins.\<close>

lemma discoverPathMTU_first_fit:
  assumes "i < length mtuSizes" "t i (mtuSizes ! i)" "\<forall>j<i. \<not> t j (mtuSizes ! j)"
  shows "discoverPathMTU t = (mtuSizes ! i, None)"
  using try_sizes_first_fit[of i mtuSizes t 0] assms by (simp add: discoverPathMTU_def)

text \<open>When all nine fail, the answer is that of the binary search between 576 and 1500.\<close>

lemma discoverPathMTU_fallback:
  assumes "\<forall>j<length mtuSizes. \<not> t j (mtuSizes ! j)"
  shows "discoverPathMTU t = binarySearchMTU t 9 576 1500"
proof -
  have "length mtuSizes = 9" by (simp add: mtuSizes_def)
  with try_sizes_none_fit[of mtuSizes t 0] assms show ?thesis
    by (simp add: discoverPathMTU_def)
qed

lemma binarySearchMTU_bounds:
  "0 \<le> mn \<Longrightarrow> mn \<le> fst (binarySearchMTU t k mn mx) \<and> fst (binarySearchMTU t k mn mx) \<le> max mn mx"
proof (induction t k mn mx rule: binarySearchMTU.induct)
  case (1 t k mn mx)
  show ?case
  proof (cases "mn \<ge> mx")
    case True
    then show ?thesis by (subst (1 2) binarySearchMTU.simps) simp
  next
    case False
    define mid where "mid = half (mn + mx)"
    have mid: "mn \<le> mid" "mid < mx" using False "1.prems" by (auto simp: mid_def half_def)
    show ?thesis
    proof (cases "t k mid")
      case True
      from "1.IH"(1)[OF False mid_def True] mid "1.prems"
      have "mid + 1 \<le> fst (binarySearchMTU t (Suc k) (mid + 1) mx)"
        "fst (binarySearchMTU t (Suc k) (mid + 1) mx) \<le> max (mid + 1) mx" by simp_all
      moreover have "binarySearchMTU t k mn mx = binarySearchMTU t (Suc k) (mid + 1) mx"
        using False True by (subst binarySearchMTU.simps) (simp add: mid_def Let_def)
      ultimately show ?thesis using mid by simp
    next
      case f: False
      from "1.IH"(2)[OF False mid_def f] "1.prems"
      have "mn \<le> fst (binarySearchMTU t (Suc k) mn (mid - 1))"
        "fst (binarySearchMTU t (Suc k) mn (mid - 1)) \<le> max mn (mid - 1)" by simp_all
      moreover have "binarySearchMTU t k mn mx = binarySearchMTU t (Suc k) mn (mid - 1)"
        using False f by (subst binarySearchMTU.simps) (simp add: mid_def Let_def)
      ultimately show ?thesis using mid by simp
    qed
  qed
qed

lemma try_sizes_member: "try_sizes t k xs = (Some m, k') \<Longrightarrow> m \<in> set xs"
  by (induction xs arbitrary: k) (auto split: if_splits)

text \<open>So a discovery never fails and never answers below 576 or above 1500.\<close>

lemma TestPathMTU_total:
  "snd (TestPathMTU t) = None \<and> 576 \<le> fst (TestPathMTU t) \<and> fst (TestPathMTU t) \<le> 1500"
proof (cases "try_sizes t 0 mtuSizes")
  case (Pair r k)
  show ?thesis
  proof (cases r)
    case None
    with Pair have d: "discoverPathMTU t = binarySearchMTU t k 576 1500"
      by (simp add: discoverPathMTU_def)
    obtain m e where b: "binarySearchMTU t k 576 1500 = (m, e)" by (cases "binarySearchMTU t k 576 1500")
    from binarySearchMTU_no_error[of t k 576 1500] binarySearchMTU_bounds[of 576 t k 1500] b
    show ?thesis by (simp add: TestPathMTU_def d)
  next
    case (Some m)
    with Pair have d: "discoverPathMTU t = (m, None)" by (simp add: discoverPathMTU_def)
    from try_sizes_member[of t 0 mtuSizes m k] Pair Some have "m \<in> set mtuSizes" by simp
    then have "576 \<le> m \<and> m \<le> 1500" by (auto simp: mtuSizes_def)
    then show ?thesis by (simp add: TestPathMTU_def d)
  qed
qed

text \<open>
  Claim C7, on a path where no payload of any size is transmitted (every attempt of
  \<^verbatim>\<open>testMTUSize\<close> fails): the nine fixed sizes fail, the binary search between 576 and
  1500 runs down to its lower bound and returns 576 with a nil error, and the first poll of
  the node records 576 as its \<^verbatim>\<open>PathMTU\<close>. The value is not left unset.
\<close>

theorem path_mtu_recorded_when_nothing_transmits:
  "TestPathMTU (\<lambda>k mtu. False) = (576, None) \<and>
   PathMTU (fst (fst (PollNode cfg (env\<lparr>testMTUSize := \<lambda>url k mtu. False\<rparr>)
                        (ps\<lparr>firstPolls := Map.empty\<rparr>) ns node))) = 576"
  by (simp add: TestPathMTU_def discover_all_fail PollNode_def Let_def split: sum.splits)

section \<open>Properties of the scheduler\<close>

subsection \<open>The cursor\<close>

lemma rotate_index:
  "rotate ps n = (if nodeIndex ps \<ge> n then 0 else nodeIndex ps,
                  ps\<lparr>nodeIndex := Suc (if nodeIndex ps \<ge> n then 0 else nodeIndex ps)\<rparr>)"
  by (simp add: rotate_def Let_def)

lemma rotations_eq:
  "0 < n \<Longrightarrow> nodeIndex ps \<le> n \<Longrightarrow>
     rotations ps n m = map (\<lambda>j. (nodeIndex ps + j) mod n) [0..<m]"
proof (induction m arbitrary: ps)
  case 0
  then show ?case by simp
next
  case (Suc m)
  define c where "c = (if nodeIndex ps \<ge> n then 0 else nodeIndex ps)"
  define ps' where "ps' = ps\<lparr>nodeIndex := Suc c\<rparr>"
  have r: "rotate ps n = (c, ps')" by (simp add: rotate_index c_def ps'_def)
  have c: "c < n" "c = nodeIndex ps mod n" using Suc.prems by (auto simp: c_def)
  then have "nodeIndex ps' \<le> n" by (simp add: ps'_def)
  from Suc.IH[OF Suc.prems(1) this]
  have "rotations ps' n m = map (\<lambda>j. (Suc c + j) mod n) [0..<m]" by (simp add: ps'_def)
  also have "\<dots> = map (\<lambda>j. (nodeIndex ps + j) mod n) (map Suc [0..<m])"
  proof -
    have "(Suc c + j) mod n = (nodeIndex ps + Suc j) mod n" for j
      using mod_add_left_eq[of "nodeIndex ps" n "Suc j"] by (simp add: c(2))
    then show ?thesis by (simp only: map_map comp_def)
  qed
  finally have "rotations ps n (Suc m) = c # map (\<lambda>j. (nodeIndex ps + j) mod n) (map Suc [0..<m])"
    by (simp add: r)
  also have "\<dots> = map (\<lambda>j. (nodeIndex ps + j) mod n) (0 # map Suc [0..<m])"
    using c(2) by simp
  also have "0 # map Suc [0..<m] = [0..<Suc m]"
    by (simp add: map_Suc_upt upt_conv_Cons del: upt_Suc)
  finally show ?case .
qed

lemma rotations_first:
  "0 < n \<Longrightarrow> rotations ps n m
     = map (\<lambda>j. ((if nodeIndex ps \<ge> n then 0 else nodeIndex ps) + j) mod n) [0..<m]"
proof (cases m)
  case 0
  then show ?thesis by simp
next
  case (Suc m')
  assume n: "0 < n"
  define c where "c = (if nodeIndex ps \<ge> n then 0 else nodeIndex ps)"
  have "rotations (ps\<lparr>nodeIndex := c\<rparr>) n m = rotations ps n m"
    by (simp add: Suc rotate_index c_def)
  moreover have "nodeIndex (ps\<lparr>nodeIndex := c\<rparr>) \<le> n" using n by (simp add: c_def)
  ultimately show ?thesis using rotations_eq[OF n, of "ps\<lparr>nodeIndex := c\<rparr>" m]
    by (simp add: c_def)
qed

text \<open>
  Over lists of one length \<open>n\<close>, \<open>n\<close> ticks in a row take every index below \<open>n\<close> once:
  the cursor is a rotation. Each of \<open>n\<close> peers is polled once in \<open>n\<close> ticks as soon as
  the lists of the ticks also agree in their order, which the range over a map does not
  promise.
\<close>

lemma rotations_complete:
  assumes "0 < n"
  shows "distinct (rotations ps n n) \<and> set (rotations ps n n) = {..<n}"
proof -
  define c where "c = (if nodeIndex ps \<ge> n then 0 else nodeIndex ps)"
  have r: "rotations ps n n = map (\<lambda>j. (c + j) mod n) [0..<n]"
    using rotations_first[OF assms, of ps n] by (simp add: c_def)
  have inj: "inj_on (\<lambda>j. (c + j) mod n) {0..<n}"
  proof (rule inj_onI)
    have le: "i = j" if "i \<le> j" "j < n" "(c + i) mod n = (c + j) mod n" for i j
    proof -
      from that(1,3) have "n dvd (c + j) - (c + i)"
        using mod_eq_dvd_iff_nat[of "c + i" "c + j" n] by simp
      then have "n dvd j - i" by simp
      with that(2) have "j - i = 0" using nat_dvd_not_less[of "j - i" n] by fastforce
      with that(1) show ?thesis by simp
    qed
    fix i j assume ij: "i \<in> {0..<n}" "j \<in> {0..<n}" "(c + i) mod n = (c + j) mod n"
    show "i = j"
    proof (cases "i \<le> j")
      case True
      with le[of i j] ij show ?thesis by simp
    next
      case False
      with le[of j i] ij show ?thesis by simp
    qed
  qed
  have d: "distinct (rotations ps n n)"
    unfolding r by (simp add: distinct_map inj)
  have "set (rotations ps n n) \<subseteq> {..<n}" unfolding r using assms by auto
  moreover have "card (set (rotations ps n n)) = n"
    using d distinct_card[of "rotations ps n n"] by (simp add: r)
  ultimately have "set (rotations ps n n) = {..<n}"
    by (intro card_subset_eq) simp_all
  with d show ?thesis by simp
qed

text \<open>
  What a tick leaves in the polling service: the node at the index that the cursor gave is
  the one polled (its mark in \<^verbatim>\<open>firstPolls\<close> is set), and the cursor has moved on.
\<close>

lemma PollNode_marks:
  "fst (snd (PollNode cfg env ps ns node)) = ps\<lparr>firstPolls := (firstPolls ps)(ID node \<mapsto> True)\<rparr>"
proof (cases "firstPolls ps (ID node)")
  case None
  then show ?thesis by (simp add: PollNode_def Let_def split: sum.splits)
next
  case (Some b)
  then have "(firstPolls ps)(ID node \<mapsto> True) = firstPolls ps" if b using that by auto
  with Some show ?thesis by (cases b) (simp_all add: PollNode_def Let_def split: sum.splits)
qed

lemma pollNextNode_cursor:
  assumes "GetActiveNodes ns (keyOrder env) = Inr nodes"
    and "filter (\<lambda>node. ID node \<noteq> nodeID cfg) nodes = L" and "L \<noteq> []"
  shows "fst (fst (pollNextNode cfg eng env (ps, ns, repo)))
           = (snd (rotate ps (length L)))
               \<lparr>firstPolls := (firstPolls ps)(ID (L ! fst (rotate ps (length L))) \<mapsto> True)\<rparr>"
proof -
  obtain i ps2 where r: "rotate ps (length L) = (i, ps2)" by (cases "rotate ps (length L)")
  then have f: "firstPolls ps2 = firstPolls ps" by (auto simp: rotate_def Let_def)
  obtain res e ps3 ns1 where p: "PollNode cfg env ps2 ns (L ! i) = ((res, e), ps3, ns1)"
    by (cases "PollNode cfg env ps2 ns (L ! i)") auto
  from PollNode_marks[of cfg env ps2 ns "L ! i"] p f
  have ps3: "ps3 = ps2\<lparr>firstPolls := (firstPolls ps)(ID (L ! i) \<mapsto> True)\<rparr>" by simp
  from assms(3) have nn: "nodes \<noteq> []" using assms(2) by auto
  show ?thesis
    using assms nn
    by (simp add: pollNextNode_def GetNodeID_def r p ps3 Let_def split: option.splits)
qed

subsection \<open>The order of the candidates\<close>

lemmas ex_defs = node_a_def node_b_def ns_ab_def ps_start_def repo_empty_def reply_self_def
  env_ab_def env_ba_def cfg_me_def eng_keep_def

lemmas op_defs = pollNextNode_def rotate_def PollNode_def GetActiveNodes_def GetNodeID_def nodeURL_def
  TestPathMTU_def discoverPathMTU_def mtuSizes_def MergeNodeInfo_def upsert_def new_node_def
  addOrUpdateNode_def GetNode_def UpdateNode_def CreateNode_def take_fault_def
  CreatePollResult_def take_pfault_def UpdateNodeStatus_def assign_def List.map_filter_def Let_def

text \<open>
  Claim C4, at a Registry with the two active peers \<open>a\<close> and \<open>b\<close> and the cursor at 0.
  Both probes succeed and report no further node, so that membership and liveness are the
  same before, between and after the two ticks. The range over \<^verbatim>\<open>knownNodes\<close> in
  \<^verbatim>\<open>GetActiveNodes\<close> meets the keys as \<open>a, b\<close> in the first tick and as \<open>b, a\<close>
  in the second, which Go allows. The first tick takes index 0 of \<open>[a, b]\<close>, the second
  index 1 of \<open>[b, a]\<close>: two ticks probe \<open>a\<close> twice and \<open>b\<close> never.
\<close>

theorem unstable_map_order_repeats_peer:
  "iteration_order ns_ab (keyOrder env_ab) \<and>
   iteration_order (fst (snd (ticks cfg_me eng_keep (ps_start, ns_ab, repo_empty) [env_ab])))
     (keyOrder env_ba) \<and>
   map (\<lambda>i. map_option IsActive
          (registry (fst (snd (ticks cfg_me eng_keep (ps_start, ns_ab, repo_empty) [env_ab]))) i))
     [''a'', ''b''] = [Some True, Some True] \<and>
   map (\<lambda>i. map_option IsActive
          (registry (fst (snd (ticks cfg_me eng_keep (ps_start, ns_ab, repo_empty) [env_ab, env_ba]))) i))
     [''a'', ''b''] = [Some True, Some True] \<and>
   map NodeID
     (poll_results (snd (snd (ticks cfg_me eng_keep (ps_start, ns_ab, repo_empty) [env_ab, env_ba]))))
     = [''a'', ''a'']"
  by (simp add: ticks_def iteration_order_def registry_def ex_defs op_defs) auto

section \<open>Properties of the poll history\<close>

subsection \<open>The statements of the repository\<close>

lemma take_pfault_frame:
  "take_pfault r = (f, r1) \<Longrightarrow> poll_results r1 = poll_results r \<and> file_size r1 = file_size r"
  by (auto simp: take_pfault_def split: list.splits)

lemma delete_batch_effect:
  "delete_batch eng r = (r1, Inr n) \<Longrightarrow>
     n = min 1000 (length (poll_results r)) \<and>
     poll_results r1 = drop 1000 (stored_order eng (poll_results r)) \<and>
     file_size r1 = after_delete eng (poll_results r1) (file_size r)"
  by (auto simp: delete_batch_def stored_order_def Let_def min_def
           split: prod.splits if_splits dest!: take_pfault_frame)

lemma RowsAffected_effect:
  "RowsAffected r n = (r1, Inr k) \<Longrightarrow>
     k = n \<and> poll_results r1 = poll_results r \<and> file_size r1 = file_size r"
  by (auto simp: RowsAffected_def split: prod.splits if_splits dest!: take_pfault_frame)

lemma GetDatabaseSize_effect:
  "GetDatabaseSize r = (r1, x) \<Longrightarrow>
     poll_results r1 = poll_results r \<and> file_size r1 = file_size r \<and>
     (\<forall>sz. x = Inr sz \<longrightarrow> sz = file_size r)"
  by (auto simp: GetDatabaseSize_def split: prod.splits if_splits dest!: take_pfault_frame)

lemma vacuum_effect:
  "vacuum eng r = (r1, None) \<Longrightarrow>
     poll_results r1 = poll_results r \<and>
     file_size r1 = after_vacuum eng (poll_results r) (file_size r)"
  by (auto simp: vacuum_def split: prod.splits if_splits dest!: take_pfault_frame)

subsection \<open>The loop and its batches\<close>

text \<open>
  The loop against the policy: a run of the loop that returns without error has executed
  some number \<open>j\<close> of batches; it executed each of them at a size over the budget, it
  went on from a batch to the next only when the table was not empty before that batch, and
  it stopped within the budget or at an empty table.
\<close>

lemma cleanup_loop_batches:
  "cleanup_loop eng m r c = (r', None) \<Longrightarrow> c = file_size r \<Longrightarrow>
     \<exists>j. (poll_results r', file_size r') = spec_batches eng j (poll_results r, file_size r) \<and>
         (\<forall>i<j. m < snd (spec_batches eng i (poll_results r, file_size r))) \<and>
         (\<forall>i. Suc i < j \<longrightarrow> fst (spec_batches eng i (poll_results r, file_size r)) \<noteq> []) \<and>
         (file_size r' \<le> m \<or> poll_results r' = [])"
proof (induction eng m r c rule: cleanup_loop.induct)
  case (1 eng m r c)
  let ?v = "(poll_results r, file_size r)"
  show ?case
  proof (cases "c > m")
    case False
    with "1.prems" have "r' = r" by simp
    with False "1.prems" show ?thesis by (intro exI[of _ 0]) simp
  next
    case True
    obtain r1 x where d: "delete_batch eng r = (r1, x)" by (cases "delete_batch eng r")
    with True "1.prems" obtain n where x: "x = Inr n" by (cases x) auto
    obtain r2 y where a: "RowsAffected r1 n = (r2, y)" by (cases "RowsAffected r1 n")
    with True d x "1.prems" obtain rowsAffected where y: "y = Inr rowsAffected" by (cases y) auto
    from delete_batch_effect[OF d[unfolded x]] RowsAffected_effect[OF a[unfolded y]]
    have n: "rowsAffected = min 1000 (length (poll_results r))"
      and v2: "(poll_results r2, file_size r2) = spec_batches eng 1 ?v"
      by simp_all
    show ?thesis
    proof (cases "rowsAffected = 0")
      case z: True
      with True d x a y "1.prems" have r': "r' = r2" by simp
      from z n have e: "poll_results r = []" by (simp add: min_def split: if_splits)
      with v2 have "poll_results r2 = []" by (simp add: stored_order_def)
      with v2 r' True "1.prems"(2) show ?thesis by (intro exI[of _ 1]) simp
    next
      case nz: False
      obtain r3 w where g: "GetDatabaseSize r2 = (r3, w)" by (cases "GetDatabaseSize r2")
      with True d x a y nz "1.prems" obtain sz where w: "w = Inr sz" by (cases w) auto
      from GetDatabaseSize_effect[OF g] w
      have r3: "poll_results r3 = poll_results r2" "file_size r3 = file_size r2" "sz = file_size r3"
        by simp_all
      have rec: "cleanup_loop eng m r3 sz = (r', None)"
        using True d x a y nz g w "1.prems" by simp
      from "1.IH"[OF True d[symmetric] x a[symmetric] y nz g[symmetric] w rec r3(3)]
      obtain j where j: "(poll_results r', file_size r') = spec_batches eng j (poll_results r3, file_size r3)"
        "\<forall>i<j. m < snd (spec_batches eng i (poll_results r3, file_size r3))"
        "\<forall>i. Suc i < j \<longrightarrow> fst (spec_batches eng i (poll_results r3, file_size r3)) \<noteq> []"
        "file_size r' \<le> m \<or> poll_results r' = []"
        by blast
      have v3: "(poll_results r3, file_size r3) = spec_batches eng 1 ?v" using v2 r3 by simp
      have shift: "spec_batches eng i (poll_results r3, file_size r3) = spec_batches eng (Suc i) ?v" for i
        unfolding v3 by simp
      from nz n have ne: "poll_results r \<noteq> []" by auto
      have "\<forall>i<Suc j. m < snd (spec_batches eng i ?v)"
      proof (intro allI impI)
        fix i assume "i < Suc j"
        then show "m < snd (spec_batches eng i ?v)"
          using j(2) True "1.prems"(2) by (cases i) (simp_all add: shift)
      qed
      moreover have "\<forall>i. Suc i < Suc j \<longrightarrow> fst (spec_batches eng i ?v) \<noteq> []"
      proof (intro allI impI)
        fix i assume "Suc i < Suc j"
        then show "fst (spec_batches eng i ?v) \<noteq> []"
          using j(3) ne by (cases i) (simp_all add: shift)
      qed
      ultimately show ?thesis using j(1,4) by (intro exI[of _ "Suc j"]) (simp add: shift)
    qed
  qed
qed

subsection \<open>The budget\<close>

text \<open>
  One run of \<^verbatim>\<open>CleanupOldResults\<close> that returns without error: the table left is the
  table after \<open>j\<close> batches of the policy, none of them executed within the budget, and
  the size measured last is within the budget or the table is empty. Below the budget
  nothing is deleted (\<open>j = 0\<close>). The file is then as \<^verbatim>\<open>VACUUM\<close> leaves it.
\<close>

lemma CleanupOldResults_batches:
  assumes "snd (CleanupOldResults eng r MaxDatabaseSizeMB) = None"
  shows "\<exists>j. poll_results (fst (CleanupOldResults eng r MaxDatabaseSizeMB))
               = fst (spec_batches eng j (poll_results r, file_size r)) \<and>
             (\<forall>i<j. 10 * 1024 * 1024 < snd (spec_batches eng i (poll_results r, file_size r))) \<and>
             (\<forall>i. Suc i < j \<longrightarrow> fst (spec_batches eng i (poll_results r, file_size r)) \<noteq> []) \<and>
             (snd (spec_batches eng j (poll_results r, file_size r)) \<le> 10 * 1024 * 1024 \<or>
              fst (spec_batches eng j (poll_results r, file_size r)) = []) \<and>
             file_size (fst (CleanupOldResults eng r MaxDatabaseSizeMB))
               = (if file_size r \<le> 10 * 1024 * 1024 then file_size r
                  else after_vacuum eng (fst (spec_batches eng j (poll_results r, file_size r)))
                         (snd (spec_batches eng j (poll_results r, file_size r))))"
proof -
  let ?m = "10 * 1024 * 1024 :: int"
  obtain r1 x where g: "GetDatabaseSize r = (r1, x)" by (cases "GetDatabaseSize r")
  with assms obtain c where x: "x = Inr c"
    by (cases x) (auto simp: CleanupOldResults_def)
  from GetDatabaseSize_effect[OF g] x
  have r1: "poll_results r1 = poll_results r" "file_size r1 = file_size r" "c = file_size r1"
    by simp_all
  show ?thesis
  proof (cases "c \<le> ?m")
    case True
    then have "fst (CleanupOldResults eng r MaxDatabaseSizeMB) = r1"
      by (simp add: CleanupOldResults_def g x MaxDatabaseSizeMB_def)
    with True r1 show ?thesis by (intro exI[of _ 0]) simp
  next
    case False
    obtain r2 y where l: "cleanup_loop eng ?m r1 c = (r2, y)" by (cases "cleanup_loop eng ?m r1 c")
    with False assms have y: "y = None"
      by (cases y) (auto simp: CleanupOldResults_def g x MaxDatabaseSizeMB_def)
    obtain r3 z where v: "vacuum eng r2 = (r3, z)" by (cases "vacuum eng r2")
    with False assms l y have z: "z = None"
      by (cases z) (auto simp: CleanupOldResults_def g x MaxDatabaseSizeMB_def)
    have res: "fst (CleanupOldResults eng r MaxDatabaseSizeMB) = r3"
      using False l y v z by (simp add: CleanupOldResults_def g x MaxDatabaseSizeMB_def)
    from cleanup_loop_batches[OF l[unfolded y] r1(3)]
    obtain j where j: "(poll_results r2, file_size r2) = spec_batches eng j (poll_results r, file_size r)"
      "\<forall>i<j. ?m < snd (spec_batches eng i (poll_results r, file_size r))"
      "\<forall>i. Suc i < j \<longrightarrow> fst (spec_batches eng i (poll_results r, file_size r)) \<noteq> []"
      "file_size r2 \<le> ?m \<or> poll_results r2 = []"
      unfolding r1 by blast
    have j1: "fst (spec_batches eng j (poll_results r, file_size r)) = poll_results r2"
      "snd (spec_batches eng j (poll_results r, file_size r)) = file_size r2"
      by (simp_all add: j(1)[symmetric])
    from False r1 have big: "\<not> file_size r \<le> ?m" by simp
    with vacuum_effect[OF v[unfolded z]] j(2,3,4) show ?thesis
      unfolding res by (intro exI[of _ j]) (simp add: j1)
  qed
qed

text \<open>
  With a \<^verbatim>\<open>VACUUM\<close> that does not grow the file, a run that returns without error
  leaves the file within 10 MB or the table empty.
\<close>

lemma CleanupOldResults_budget:
  assumes "\<forall>rows sz. after_vacuum eng rows sz \<le> sz"
    and "snd (CleanupOldResults eng r MaxDatabaseSizeMB) = None"
  shows "file_size (fst (CleanupOldResults eng r MaxDatabaseSizeMB)) \<le> 10 * 1024 * 1024 \<or>
         poll_results (fst (CleanupOldResults eng r MaxDatabaseSizeMB)) = []"
proof -
  from CleanupOldResults_batches[OF assms(2)] obtain j where
    j: "poll_results (fst (CleanupOldResults eng r MaxDatabaseSizeMB))
               = fst (spec_batches eng j (poll_results r, file_size r))"
       "snd (spec_batches eng j (poll_results r, file_size r)) \<le> 10 * 1024 * 1024 \<or>
              fst (spec_batches eng j (poll_results r, file_size r)) = []"
       "file_size (fst (CleanupOldResults eng r MaxDatabaseSizeMB))
               = (if file_size r \<le> 10 * 1024 * 1024 then file_size r
                  else after_vacuum eng (fst (spec_batches eng j (poll_results r, file_size r)))
                         (snd (spec_batches eng j (poll_results r, file_size r))))"
    by blast
  show ?thesis
  proof (cases "file_size r \<le> 10 * 1024 * 1024")
    case True
    with j show ?thesis by auto
  next
    case False
    from assms(1) have "after_vacuum eng (fst (spec_batches eng j (poll_results r, file_size r)))
                         (snd (spec_batches eng j (poll_results r, file_size r)))
                        \<le> snd (spec_batches eng j (poll_results r, file_size r))" by simp
    with j False show ?thesis by auto
  qed
qed

text \<open>A batch removes at most 1000 rows, the first in the stored order.\<close>

lemma spec_batches_step:
  "fst (spec_batches eng 1 (rows, sz)) = drop 1000 (stored_order eng rows) \<and>
   length rows - length (fst (spec_batches eng 1 (rows, sz))) \<le> 1000"
  by (simp add: stored_order_def)

subsection \<open>The order of the stored times\<close>

text \<open>
  On a host whose offset from UTC never changes, the stored texts order as the instants
  do, and a batch takes the oldest rows.
\<close>

lemma insort_key_same_order:
  fixes f :: "'a \<Rightarrow> 'b::linorder" and g :: "'a \<Rightarrow> 'c::linorder"
  assumes "\<And>x y. f x \<le> f y \<longleftrightarrow> g x \<le> g y"
  shows "insort_key f x xs = insort_key g x xs"
  by (induction xs) (simp_all add: assms)

lemma sort_key_same_order:
  fixes f :: "'a \<Rightarrow> 'b::linorder" and g :: "'a \<Rightarrow> 'c::linorder"
  assumes "\<And>x y. f x \<le> f y \<longleftrightarrow> g x \<le> g y"
  shows "sort_key f xs = sort_key g xs"
  by (induction xs) (simp_all add: sort_key_def insort_key_same_order[of f g, OF assms])

lemma stored_order_chronological:
  assumes "\<forall>t. local_offset eng t = off"
  shows "stored_order eng rows = sort_key PollTime rows"
  unfolding stored_order_def
  by (rule sort_key_same_order) (auto simp: stored_poll_time_def assms)








end
